theory Spec2Isabelle
  imports Main "HOL-Library.Word" "HOL-Library.Multiset"
begin

section \<open>Strings of the source language\<close>

text \<open>
  A TypeScript string is a sequence of UTF-16 code units. Every character the source
  names (the straight quote, the two curly quotes, the backslash, the space, the
  hyphen, the apostrophe) is a single code unit, so a string is a list of 16-bit words.
\<close>

type_synonym jchar = "16 word"
type_synonym jstring = "jchar list"

definition js :: "string \<Rightarrow> jstring" where
  "js s = map of_char s"

definition DQUOTE :: jchar where "DQUOTE = 0x22"
definition BACKSLASH :: jchar where "BACKSLASH = 0x5C"
definition LDQUO :: jchar where "LDQUO = 0x201C"
definition RDQUO :: jchar where "RDQUO = 0x201D"
definition SPACE :: jchar where "SPACE = 0x20"

text \<open>
  \<^verbatim>\<open>String.prototype.trim\<close> and the regular-expression class \<^verbatim>\<open>\s\<close> use the same
  set: the WhiteSpace and LineTerminator code points of ECMAScript.
\<close>

definition isWhiteSpace :: "jchar \<Rightarrow> bool" where
  "isWhiteSpace c \<longleftrightarrow> c \<in> set [0x9, 0xA, 0xB, 0xC, 0xD, 0x20, 0xA0, 0x1680,
     0x2000, 0x2001, 0x2002, 0x2003, 0x2004, 0x2005, 0x2006, 0x2007, 0x2008, 0x2009, 0x200A,
     0x2028, 0x2029, 0x202F, 0x205F, 0x3000, 0xFEFF]"

definition trim :: "jstring \<Rightarrow> jstring" where
  "trim s = rev (dropWhile isWhiteSpace (rev (dropWhile isWhiteSpace s)))"

text \<open>\<^verbatim>\<open>s[i]\<close>: the code unit at index \<open>i\<close>, or \<^verbatim>\<open>undefined\<close> (here \<open>None\<close>) outside the string.\<close>

definition at :: "jstring \<Rightarrow> int \<Rightarrow> jchar option" where
  "at s i = (if 0 \<le> i \<and> i < int (length s) then Some (s ! nat i) else None)"

text \<open>\<^verbatim>\<open>s.slice(a, b)\<close> for \<open>0 \<le> a\<close>, \<open>0 \<le> b\<close>.\<close>

definition slice :: "jstring \<Rightarrow> nat \<Rightarrow> nat \<Rightarrow> jstring" where
  "slice s a b = take (b - a) (drop a s)"

text \<open>\<^verbatim>\<open>xs.join(sep)\<close>\<close>

fun join :: "jstring \<Rightarrow> jstring list \<Rightarrow> jstring" where
  "join sep [] = []"
| "join sep [x] = x"
| "join sep (x # y # xs) = x @ sep @ join sep (y # xs)"

text \<open>\<^verbatim>\<open>s.replace(/c/g, r)\<close> for a pattern that is one literal code unit \<open>c\<close>.\<close>

definition replaceAll :: "jchar \<Rightarrow> jstring \<Rightarrow> jstring \<Rightarrow> jstring" where
  "replaceAll c r s = concat (map (\<lambda>x. if x = c then r else [x]) s)"

text \<open>
  A \<^verbatim>\<open>Set\<close> iterates in insertion order and ignores a value it already holds:
  \<^verbatim>\<open>Array.from(new Set(xs))\<close>, and the \<^verbatim>\<open>seen\<close> filter of \<^verbatim>\<open>prepare\<close>, keep the first
  occurrence of each value.
\<close>

definition set_add :: "'a list \<Rightarrow> 'a \<Rightarrow> 'a list" where
  "set_add seen x = (if x \<in> set seen then seen else seen @ [x])"

definition uniq :: "'a list \<Rightarrow> 'a list" where
  "uniq xs = foldl set_add [] xs"

text \<open>
  \<^verbatim>\<open>Array.prototype.sort(cmp)\<close>. The standard fixes the result when the comparator is
  consistent: the stable sorted permutation. The model is the stable insertion sort.
\<close>

fun insort_cmp :: "('a \<Rightarrow> 'a \<Rightarrow> int) \<Rightarrow> 'a \<Rightarrow> 'a list \<Rightarrow> 'a list" where
  "insort_cmp cmp x [] = [x]"
| "insort_cmp cmp x (y # ys) = (if cmp x y \<le> 0 then x # y # ys else y # insort_cmp cmp x ys)"

definition sort_cmp :: "('a \<Rightarrow> 'a \<Rightarrow> int) \<Rightarrow> 'a list \<Rightarrow> 'a list" where
  "sort_cmp cmp xs = foldr (insort_cmp cmp) xs []"

text \<open>A \<^verbatim>\<open>for\<close> loop whose body can fail: the first failure ends the loop.\<close>

fun foldM :: "('a \<Rightarrow> 's \<Rightarrow> 's option) \<Rightarrow> 'a list \<Rightarrow> 's \<Rightarrow> 's option" where
  "foldM f [] s = Some s"
| "foldM f (x # xs) s = (case f x s of None \<Rightarrow> None | Some s' \<Rightarrow> foldM f xs s')"

section \<open>The platform\<close>

text \<open>
  Three built-ins the source calls depend on Unicode tables that are not part of the
  repository: \<^verbatim>\<open>s.normalize("NFKC")\<close>, \<^verbatim>\<open>s.toLowerCase()\<close> and \<^verbatim>\<open>a.localeCompare(b)\<close>.
  They are parameters of the model.
\<close>

record platform =
  normalizeNFKC :: "jstring \<Rightarrow> jstring"
  toLowerCase :: "jstring \<Rightarrow> jstring"
  localeCompare :: "jstring \<Rightarrow> jstring \<Rightarrow> int"

section \<open>Normalizer and tokenizer\<close>

text \<open>\<^verbatim>\<open>const defaultNormalize = (s) => s.normalize("NFKC").toLowerCase().trim()\<close>\<close>

definition defaultNormalize :: "platform \<Rightarrow> jstring \<Rightarrow> jstring" where
  "defaultNormalize pf s = trim (toLowerCase pf (normalizeNFKC pf s))"

text \<open>
  \<^verbatim>\<open>DEFAULT_TOKEN_REGEX = /[a-z0-9]+(?:[-'][a-z0-9]+)*/gi\<close>. Under the flag \<^verbatim>\<open>i\<close> (without
  \<^verbatim>\<open>u\<close>) the class \<^verbatim>\<open>[a-z0-9]\<close> holds the ASCII letters of both cases and the digits.
\<close>

definition isAlnum :: "jchar \<Rightarrow> bool" where
  "isAlnum c \<longleftrightarrow> (0x61 \<le> c \<and> c \<le> 0x7A) \<or> (0x41 \<le> c \<and> c \<le> 0x5A) \<or> (0x30 \<le> c \<and> c \<le> 0x39)"

definition isJoiner :: "jchar \<Rightarrow> bool" where
  "isJoiner c \<longleftrightarrow> c = 0x2D \<or> c = 0x27"

text \<open>
  The greedy iteration \<^verbatim>\<open>(?:[-'][a-z0-9]+)*\<close> at the head of \<open>s\<close>: the number of code
  units it consumes. Each round needs a joiner and at least one alphanumeric.
\<close>

function match_groups :: "jstring \<Rightarrow> nat" where
  "match_groups [] = 0"
| "match_groups (c # s) =
     (if isJoiner c \<and> takeWhile isAlnum s \<noteq> []
      then 1 + length (takeWhile isAlnum s) + match_groups (dropWhile isAlnum s)
      else 0)"
  by pat_completeness auto
termination
  by (relation "measure length") (auto simp: length_dropWhile_le less_Suc_eq_le)

text \<open>
  The whole pattern anchored at the head of \<open>s\<close>: the length of the match, if any.
  Once \<^verbatim>\<open>[a-z0-9]+\<close> has taken its longest run the rest cannot fail, so the greedy
  choice is the match and nothing backtracks.
\<close>

definition match_at :: "jstring \<Rightarrow> nat option" where
  "match_at s =
     (if takeWhile isAlnum s = [] then None
      else Some (length (takeWhile isAlnum s) + match_groups (dropWhile isAlnum s)))"

text \<open>
  \<^verbatim>\<open>while ((m = re.exec(n))) out.push(m[0])\<close>: each \<^verbatim>\<open>exec\<close> finds the leftmost match at
  or after \<^verbatim>\<open>lastIndex\<close> and moves \<^verbatim>\<open>lastIndex\<close> to its end.
\<close>

function exec_loop :: "jstring \<Rightarrow> jstring list" where
  "exec_loop [] = []"
| "exec_loop (c # s) =
     (case match_at (c # s) of
        Some n \<Rightarrow> take n (c # s) # exec_loop (drop n (c # s))
      | None \<Rightarrow> exec_loop s)"
  by pat_completeness auto
termination
  by (relation "measure length") (auto simp: match_at_def split: if_splits)

definition defaultTokenize :: "platform \<Rightarrow> jstring \<Rightarrow> jstring list" where
  "defaultTokenize pf s = exec_loop (defaultNormalize pf s)"

text \<open>\<^verbatim>\<open>const defaultWrap = (q) => `/${q}/`\<close>\<close>

definition defaultWrap :: "jstring \<Rightarrow> jstring" where
  "defaultWrap q = js ''/'' @ q @ js ''/''"

section \<open>Quote utilities\<close>

text \<open>\<^verbatim>\<open>quoteExact\<close>: double every backslash, then prefix every double quote, then wrap.\<close>

definition quoteExact :: "jstring \<Rightarrow> jstring" where
  "quoteExact phrase =
     (let escaped = replaceAll DQUOTE [BACKSLASH, DQUOTE]
                      (replaceAll BACKSLASH [BACKSLASH, BACKSLASH] phrase)
      in [DQUOTE] @ escaped @ [DQUOTE])"

text \<open>
  \<^verbatim>\<open>hasBalancedStraightQuotes\<close>: the loop over \<open>i\<close> with its counter. At \<open>i = 0\<close> the
  source reads \<^verbatim>\<open>s[-1]\<close>, which is \<^verbatim>\<open>undefined\<close> and so differs from the backslash.
\<close>

function straight_loop :: "jstring \<Rightarrow> nat \<Rightarrow> nat \<Rightarrow> nat" where
  "straight_loop s i cnt =
     (if i < length s
      then straight_loop s (i + 1)
             (if at s (int i) = Some DQUOTE \<and> at s (int i - 1) \<noteq> Some BACKSLASH
              then cnt + 1 else cnt)
      else cnt)"
  by pat_completeness auto
termination
  by (relation "measure (\<lambda>(s, i, cnt). length s - i)") auto

declare straight_loop.simps [simp del]

definition hasBalancedStraightQuotes :: "jstring \<Rightarrow> bool" where
  "hasBalancedStraightQuotes s \<longleftrightarrow> straight_loop s 0 0 mod 2 = 0"

text \<open>\<^verbatim>\<open>hasBalancedCurlyQuotes\<close>: \<^verbatim>\<open>(s.match(/c/g) || []).length\<close> counts the code unit.\<close>

definition hasBalancedCurlyQuotes :: "jstring \<Rightarrow> bool" where
  "hasBalancedCurlyQuotes s \<longleftrightarrow>
     (let opens = length (filter (\<lambda>c. c = LDQUO) s);
          closes = length (filter (\<lambda>c. c = RDQUO) s)
      in opens = closes)"

text \<open>
  The inner loop of \<^verbatim>\<open>extractQuotedPhrasesBalanced\<close>: from \<open>j\<close>, the first index holding
  \<open>endChar\<close> not preceded by a backslash; \<open>None\<close> is the source's \<^verbatim>\<open>found = -1\<close>.
\<close>

function find_close :: "jstring \<Rightarrow> jchar \<Rightarrow> nat \<Rightarrow> nat option" where
  "find_close input endChar j =
     (if j < length input
      then (if at input (int j) = Some endChar \<and> at input (int j - 1) \<noteq> Some BACKSLASH
            then Some j
            else find_close input endChar (j + 1))
      else None)"
  by pat_completeness auto
termination
  by (relation "measure (\<lambda>(input, endChar, j). length input - j)") auto

declare find_close.simps [simp del]

text \<open>The outer loop, with the two accumulators.\<close>

function extract_loop :: "jstring \<Rightarrow> nat \<Rightarrow> jstring list \<Rightarrow> jstring \<Rightarrow> jstring list \<times> jstring" where
  "extract_loop input i protectedPhrases remainder =
     (if i < length input then
        (let ch = input ! i; startStraight = (ch = DQUOTE); startCurly = (ch = LDQUO) in
         if startStraight \<or> startCurly then
           (let endChar = (if startStraight then DQUOTE else RDQUO) in
            case find_close input endChar (i + 1) of
              Some found \<Rightarrow>
                if found > i then
                  (let inside = slice input (i + 1) found in
                   extract_loop input (found + 1)
                     (if trim inside \<noteq> [] then protectedPhrases @ [inside] else protectedPhrases)
                     remainder)
                else extract_loop input (i + 1) protectedPhrases (remainder @ [input ! i])
            | None \<Rightarrow> extract_loop input (i + 1) protectedPhrases (remainder @ [input ! i]))
         else extract_loop input (i + 1) protectedPhrases (remainder @ [input ! i]))
      else (protectedPhrases, remainder))"
  by pat_completeness auto
termination
  by (relation "measure (\<lambda>(input, i, p, r). length input - i)") auto

declare extract_loop.simps [simp del]

definition extractQuotedPhrasesBalanced :: "jstring \<Rightarrow> jstring list \<times> jstring" where
  "extractQuotedPhrasesBalanced input =
     (case extract_loop input 0 [] [] of (p, r) \<Rightarrow> (p, trim r))"

text \<open>
  \<^verbatim>\<open>stripStrayQuotes\<close>: \<^verbatim>\<open>s.replace(/["\<dots>]/g, " ").replace(/\s+/g, " ").trim()\<close>, the class
  holding the straight quote and the two curly quotes.
\<close>

definition isQuoteChar :: "jchar \<Rightarrow> bool" where
  "isQuoteChar c \<longleftrightarrow> c = DQUOTE \<or> c = LDQUO \<or> c = RDQUO"

definition quotes_to_space :: "jstring \<Rightarrow> jstring" where
  "quotes_to_space s = map (\<lambda>c. if isQuoteChar c then SPACE else c) s"

function collapse_ws :: "jstring \<Rightarrow> jstring" where
  "collapse_ws [] = []"
| "collapse_ws (c # s) =
     (if isWhiteSpace c then SPACE # collapse_ws (dropWhile isWhiteSpace s)
      else c # collapse_ws s)"
  by pat_completeness auto
termination
  by (relation "measure length") (auto simp: length_dropWhile_le less_Suc_eq_le)

definition stripStrayQuotes :: "jstring \<Rightarrow> jstring" where
  "stripStrayQuotes s = trim (collapse_ws (quotes_to_space s))"

section \<open>The token automaton\<close>

text \<open>
  \<^verbatim>\<open>class TokenAC\<close>: five parallel arrays. \<open>nxt\<close> is the source's \<^verbatim>\<open>next\<close>; each of its
  entries is an object without prototype used as a dictionary, kept here as an
  association list in insertion order (a key is only ever added once).
\<close>

record TokenAC =
  nxt :: "(jstring \<times> nat) list list"
  fail :: "nat list"
  out :: "nat list list"
  phrases :: "jstring list"
  pLens :: "nat list"

text \<open>The field initialisers: one root state, no phrase.\<close>

definition new_TokenAC :: TokenAC where
  "new_TokenAC = \<lparr>nxt = [[]], fail = [0], out = [[]], phrases = [], pLens = []\<rparr>"

text \<open>
  The functions below return \<open>None\<close> when the call does not come back with a value: it
  throws, it runs forever, or it touches an array outside its bounds (where the source
  would read \<^verbatim>\<open>undefined\<close> or grow the array; no automaton made by the class gets there).
\<close>

text \<open>One round of the \<^verbatim>\<open>for (const t of tokens)\<close> loop of \<^verbatim>\<open>addTokens\<close>.\<close>

definition addTokens_step :: "jstring \<Rightarrow> TokenAC \<times> nat \<Rightarrow> (TokenAC \<times> nat) option" where
  "addTokens_step t = (\<lambda>(a, node).
     if node \<ge> length (nxt a) then None
     else (case map_of (nxt a ! node) t of
             None \<Rightarrow>
               (let id = length (nxt a) in
                Some (a\<lparr>nxt := (nxt a)[node := nxt a ! node @ [(t, id)]] @ [[]],
                        fail := fail a @ [0],
                        out := out a @ [[]]\<rparr>, id))
           | Some child \<Rightarrow> Some (a, child)))"

definition addTokens :: "jstring list \<Rightarrow> TokenAC \<Rightarrow> TokenAC option" where
  "addTokens tokens a =
     (if tokens = [] then Some a
      else (case foldM addTokens_step tokens (a, 0) of
              None \<Rightarrow> None
            | Some (a1, node) \<Rightarrow>
                (let str = join [SPACE] tokens in
                 if node \<ge> length (out a1) then None
                 else if list_ex (\<lambda>pid. pid < length (phrases a1) \<and> phrases a1 ! pid = str)
                           (out a1 ! node)
                 then Some a1
                 else (let id = length (phrases a1) in
                       Some (a1\<lparr>phrases := phrases a1 @ [str],
                                pLens := pLens a1 @ [length tokens],
                                out := (out a1)[node := out a1 ! node @ [id]]\<rparr>)))))"

definition addPhrase :: "(jstring \<Rightarrow> jstring list) \<Rightarrow> jstring \<Rightarrow> TokenAC \<Rightarrow> TokenAC option" where
  "addPhrase tokenize raw a = addTokens (tokenize raw) a"

text \<open>
  \<^verbatim>\<open>Object.keys\<close>: the keys that are array indices (canonical decimal numerals below
  \<open>2^32 - 1\<close>) come first, in ascending numeric order; the others follow in insertion order.
\<close>

definition isDigit :: "jchar \<Rightarrow> bool" where
  "isDigit c \<longleftrightarrow> 0x30 \<le> c \<and> c \<le> 0x39"

definition decimal :: "jstring \<Rightarrow> nat" where
  "decimal k = foldl (\<lambda>n c. 10 * n + (unat c - 48)) 0 k"

definition array_index :: "jstring \<Rightarrow> nat option" where
  "array_index k =
     (if k \<noteq> [] \<and> list_all isDigit k \<and> (k = [0x30] \<or> hd k \<noteq> 0x30) \<and> decimal k < 4294967295
      then Some (decimal k) else None)"

definition object_keys :: "(jstring \<times> 'v) list \<Rightarrow> jstring list" where
  "object_keys r =
     (let ks = map fst r in
      sort_key (\<lambda>k. case array_index k of Some n \<Rightarrow> n | None \<Rightarrow> 0)
        (filter (\<lambda>k. array_index k \<noteq> None) ks)
      @ filter (\<lambda>k. array_index k = None) ks)"

text \<open>
  \<^verbatim>\<open>while (j !== 0 && this.next[j][k] == null) j = this.fail[j]\<close>: the loop of \<^verbatim>\<open>build\<close>, and
  with \<^verbatim>\<open>state\<close> and \<^verbatim>\<open>tok\<close> the loop of \<^verbatim>\<open>findAll\<close>.
\<close>

partial_function (option) chase :: "TokenAC \<Rightarrow> jstring \<Rightarrow> nat \<Rightarrow> nat option" where
  "chase a k j =
     (if j = 0 then Some j
      else if j \<ge> length (nxt a) then None
      else if map_of (nxt a ! j) k \<noteq> None then Some j
      else if j \<ge> length (fail a) then None
      else chase a k (fail a ! j))"

declare chase.simps [code]

text \<open>\<^verbatim>\<open>build\<close>: the loop over the keys of the root.\<close>

definition build_root_step :: "jstring \<Rightarrow> TokenAC \<times> nat list \<Rightarrow> (TokenAC \<times> nat list) option" where
  "build_root_step k = (\<lambda>(a, q).
     case map_of (nxt a ! 0) k of
       None \<Rightarrow> None
     | Some c \<Rightarrow>
         if c \<noteq> 0 then
           (if c < length (fail a) then Some (a\<lparr>fail := (fail a)[c := 0]\<rparr>, q @ [c]) else None)
         else Some (a, q))"

text \<open>The loop over the keys of the state \<open>v\<close> taken from the queue.\<close>

definition build_child_step :: "nat \<Rightarrow> jstring \<Rightarrow> TokenAC \<times> nat list \<Rightarrow> (TokenAC \<times> nat list) option" where
  "build_child_step v k = (\<lambda>(a, q).
     case map_of (nxt a ! v) k of
       None \<Rightarrow> None
     | Some u \<Rightarrow>
         if v \<ge> length (fail a) then None
         else (case chase a k (fail a ! v) of
                 None \<Rightarrow> None
               | Some j \<Rightarrow>
                   if j \<ge> length (nxt a) \<or> u \<ge> length (fail a) then None
                   else Some (a\<lparr>fail := (fail a)[u := (case map_of (nxt a ! j) k of
                                                           None \<Rightarrow> 0 | Some w \<Rightarrow> w)]\<rparr>,
                              q @ [u])))"

text \<open>\<^verbatim>\<open>while (q.length) { const v = q.shift()!; \<dots> }\<close>\<close>

partial_function (option) build_loop :: "TokenAC \<times> nat list \<Rightarrow> TokenAC option" where
  "build_loop st =
     (case st of
        (a, []) \<Rightarrow> Some a
      | (a, v # q) \<Rightarrow>
          if v \<ge> length (fail a) \<or> v \<ge> length (out a) \<or> v \<ge> length (nxt a) then None
          else (let f = fail a ! v;
                    a1 = (if f < length (out a) \<and> out a ! f \<noteq> []
                          then a\<lparr>out := (out a)[v := out a ! v @ out a ! f]\<rparr> else a)
                in Option.bind (foldM (build_child_step v) (object_keys (nxt a1 ! v)) (a1, q))
                     build_loop))"

declare build_loop.simps [code]

definition build :: "TokenAC \<Rightarrow> TokenAC option" where
  "build a =
     (if nxt a = [] then None
      else Option.bind (foldM build_root_step (object_keys (nxt a ! 0)) (a, [])) build_loop)"

text \<open>
  \<^verbatim>\<open>findAll\<close>. The \<^verbatim>\<open>Map\<close> from start index to candidate iterates in the order in which
  its keys were first set; \<^verbatim>\<open>best.set\<close> on a key it holds replaces the value in place.
\<close>

type_synonym best_map = "(int \<times> nat \<times> jstring) list"

definition best_set :: "best_map \<Rightarrow> int \<Rightarrow> nat \<times> jstring \<Rightarrow> best_map" where
  "best_set best k v =
     (if k \<in> fst ` set best then map (\<lambda>(k', v'). if k' = k then (k', v) else (k', v')) best
      else best @ [(k, v)])"

text \<open>
  \<^verbatim>\<open>for (const pid of outs)\<close> at position \<open>i\<close>. A phrase id without a length gives
  \<^verbatim>\<open>start = NaN\<close>, which fails \<^verbatim>\<open>start >= 0\<close>.
\<close>

fun outs_loop :: "TokenAC \<Rightarrow> nat \<Rightarrow> nat list \<Rightarrow> best_map \<Rightarrow> best_map option" where
  "outs_loop a i [] best = Some best"
| "outs_loop a i (pid # pids) best =
     (if pid \<ge> length (pLens a) then outs_loop a i pids best
      else (let len = pLens a ! pid; start = int i - int len + 1 in
            if start \<ge> 0 then
              (if pid \<ge> length (phrases a) then None
               else (let phrase = phrases a ! pid; prev = map_of best start in
                     if prev = None \<or> i > fst (the prev)
                     then outs_loop a i pids (best_set best start (i, phrase))
                     else outs_loop a i pids best))
            else outs_loop a i pids best))"

text \<open>\<^verbatim>\<open>for (let i = 0; i < tokens.length; i++)\<close>, on the tokens from index \<open>i\<close> on.\<close>

fun scan_loop :: "TokenAC \<Rightarrow> jstring list \<Rightarrow> nat \<Rightarrow> nat \<Rightarrow> best_map \<Rightarrow> best_map option" where
  "scan_loop a [] i state best = Some best"
| "scan_loop a (tok # toks) i state best =
     (case chase a tok state of
        None \<Rightarrow> None
      | Some s \<Rightarrow>
          if s \<ge> length (nxt a) then None
          else (let state' = (case map_of (nxt a ! s) tok of None \<Rightarrow> 0 | Some ns \<Rightarrow> ns) in
                case (if state' < length (out a) then outs_loop a i (out a ! state') best
                      else Some best) of
                  None \<Rightarrow> None
                | Some best' \<Rightarrow> scan_loop a toks (i + 1) state' best'))"

text \<open>\<^verbatim>\<open>(a, b) => b.length - a.length || a.localeCompare(b)\<close>\<close>

definition match_order :: "platform \<Rightarrow> jstring \<Rightarrow> jstring \<Rightarrow> int" where
  "match_order pf a b =
     (let d = int (length b) - int (length a) in if d \<noteq> 0 then d else localeCompare pf a b)"

definition findAll :: "platform \<Rightarrow> TokenAC \<Rightarrow> jstring list \<Rightarrow> jstring list option" where
  "findAll pf a tokens =
     (if length (nxt a) = 1 then Some []
      else (case scan_loop a tokens 0 0 [] of
              None \<Rightarrow> None
            | Some best \<Rightarrow>
                (let selected = map (\<lambda>(k, v). snd v) best;
                     unique = uniq selected
                 in Some (sort_cmp (match_order pf) unique))))"

section \<open>The query builder\<close>

record PrepareQueryOptions =
  opt_stopWords :: "jstring set"
  opt_utterances :: "jstring list option"
  opt_pretokenizedUtterances :: "jstring list list option"
  opt_normalize :: "(jstring \<Rightarrow> jstring) option"
  opt_tokenize :: "(jstring \<Rightarrow> jstring list) option"
  opt_wrap :: "(jstring \<Rightarrow> jstring) option"
  opt_alwaysIncludeCleaned :: "bool option"
  opt_acOverride :: "TokenAC option"

record PreparedQuery =
  originalInput :: jstring
  protectedPhrases :: "jstring list"
  cleanedTokens :: "jstring list"
  cleanedText :: jstring
  utteranceMatches :: "jstring list"
  queryString :: jstring
  hadUnbalancedQuotes :: bool

text \<open>The private fields of \<^verbatim>\<open>class SearchQueryBuilder\<close>.\<close>

record SearchQueryBuilder =
  stopWords :: "jstring set"
  normalize_fn :: "jstring \<Rightarrow> jstring"
  tokenize_fn :: "jstring \<Rightarrow> jstring list"
  wrap_fn :: "jstring \<Rightarrow> jstring"
  alwaysIncludeCleaned :: bool
  ac :: TokenAC

text \<open>
  The phrases the constructor registers: the pretokenized ones when there are any,
  else the tokenized utterances.
\<close>

definition registered :: "(jstring \<Rightarrow> jstring list) \<Rightarrow> PrepareQueryOptions \<Rightarrow> jstring list list" where
  "registered tokenize opts =
     (case opt_pretokenizedUtterances opts of
        Some (p # ps) \<Rightarrow> p # ps
      | _ \<Rightarrow> (case opt_utterances opts of
                Some (u # us) \<Rightarrow> map tokenize (u # us)
              | _ \<Rightarrow> []))"

definition new_SearchQueryBuilder :: "platform \<Rightarrow> PrepareQueryOptions \<Rightarrow> SearchQueryBuilder option" where
  "new_SearchQueryBuilder pf opts =
     (let normalize = (case opt_normalize opts of Some f \<Rightarrow> f | None \<Rightarrow> defaultNormalize pf);
          tokenize = (case opt_tokenize opts of Some f \<Rightarrow> f | None \<Rightarrow> defaultTokenize pf);
          wrap = (case opt_wrap opts of Some f \<Rightarrow> f | None \<Rightarrow> defaultWrap);
          b = \<lparr>stopWords = opt_stopWords opts, normalize_fn = normalize, tokenize_fn = tokenize,
               wrap_fn = wrap, alwaysIncludeCleaned = (opt_alwaysIncludeCleaned opts = Some True),
               ac = new_TokenAC\<rparr>
      in case opt_acOverride opts of
           Some a \<Rightarrow> Some (b\<lparr>ac := a\<rparr>)
         | None \<Rightarrow>
             (case foldM addTokens (registered tokenize opts) new_TokenAC of
                None \<Rightarrow> None
              | Some a \<Rightarrow> (case build a of None \<Rightarrow> None | Some a' \<Rightarrow> Some (b\<lparr>ac := a'\<rparr>))))"

text \<open>
  The two branches of \<^verbatim>\<open>if (quotesBalanced)\<close> in \<^verbatim>\<open>prepare\<close>. (The local variables of
  \<^verbatim>\<open>prepare\<close> that share a name with a field of the result carry shorter names here.)
\<close>

definition quotesBalanced :: "jstring \<Rightarrow> bool" where
  "quotesBalanced orig \<longleftrightarrow> hasBalancedStraightQuotes orig \<and> hasBalancedCurlyQuotes orig"

definition analyse_quotes :: "jstring \<Rightarrow> jstring list \<times> jstring" where
  "analyse_quotes orig =
     (if quotesBalanced orig then
        (case extractQuotedPhrasesBalanced orig of
           (prot, rem) \<Rightarrow> (filter (\<lambda>p. p \<noteq> []) (map trim prot), rem))
      else ([], stripStrayQuotes orig))"

text \<open>\<^verbatim>\<open>cleanedTokens\<close>: the stop-word filter on the tokens of the remainder.\<close>

definition clean_tokens :: "SearchQueryBuilder \<Rightarrow> jstring \<Rightarrow> jstring list" where
  "clean_tokens b remainder =
     (let remainderTokens = tokenize_fn b remainder in
      if stopWords b \<noteq> {} then filter (\<lambda>t. t \<notin> stopWords b) remainderTokens
      else remainderTokens)"

text \<open>The clause list before deduplication, each clause pushed already escaped.\<close>

definition clauses_of ::
  "SearchQueryBuilder \<Rightarrow> jstring \<Rightarrow> jstring \<Rightarrow> jstring list \<Rightarrow> jstring list \<Rightarrow> jstring list" where
  "clauses_of b orig ctext prot matches =
     (let trimmed = trim orig;
          clauses0 = [quoteExact trimmed];
          normOriginal = normalize_fn b orig;
          clauses1 = (if ctext \<noteq> [] \<and> (alwaysIncludeCleaned b \<or> ctext \<noteq> normOriginal)
                      then clauses0 @ [quoteExact ctext] else clauses0);
          clauses2 = (if quotesBalanced orig \<and> prot \<noteq> []
                      then clauses1 @ map quoteExact prot else clauses1)
      in clauses2 @ map quoteExact matches)"

definition prepare :: "platform \<Rightarrow> SearchQueryBuilder \<Rightarrow> jstring \<Rightarrow> PreparedQuery option" where
  "prepare pf b userInput =
     (let orig = userInput; trimmed = trim orig in
      if trimmed = [] then
        Some \<lparr>originalInput = orig, protectedPhrases = [], cleanedTokens = [],
              cleanedText = [], utteranceMatches = [], queryString = [],
              hadUnbalancedQuotes = False\<rparr>
      else
        (case analyse_quotes orig of
           (prot, remainder) \<Rightarrow>
             (let ctoks = clean_tokens b remainder;
                  ctext = trim (join [SPACE] ctoks)
              in case findAll pf (ac b) ctoks of
                   None \<Rightarrow> None
                 | Some matches \<Rightarrow>
                     (let clauses = clauses_of b orig ctext prot matches;
                          ordered = uniq clauses;
                          qs = join (js '' OR '') (map (wrap_fn b) ordered)
                      in Some \<lparr>originalInput = orig,
                               protectedPhrases = prot,
                               cleanedTokens = ctoks,
                               cleanedText = ctext,
                               utteranceMatches = matches,
                               queryString = qs,
                               hadUnbalancedQuotes = \<not> quotesBalanced orig\<rparr>))))"


section \<open>Notions of the specification\<close>

text \<open>
  De-escaping a clause, the inverse the specification speaks of (the source has no
  function that reads an escaped clause back): \<open>unescape\<close> drops the backslash of each
  escape pair, \<open>dequote\<close> first takes the enclosing double quotes off.
\<close>

definition escape_unit :: "jchar \<Rightarrow> jstring" where
  "escape_unit c =
     (if c = BACKSLASH then [BACKSLASH, BACKSLASH]
      else if c = DQUOTE then [BACKSLASH, DQUOTE] else [c])"

fun unescape :: "jstring \<Rightarrow> jstring" where
  "unescape (c # d # s) = (if c = BACKSLASH then d # unescape s else c # unescape (d # s))"
| "unescape s = s"

definition dequote :: "jstring \<Rightarrow> jstring option" where
  "dequote q =
     (if 2 \<le> length q \<and> hd q = DQUOTE \<and> last q = DQUOTE then Some (unescape (butlast (tl q)))
      else None)"

text \<open>
  The texts that \<^verbatim>\<open>prepare\<close> turns into clauses, read off its result: the trimmed
  input, the cleaned text when it is kept, the protected phrases, the utterance matches.
\<close>

definition raw_clauses :: "SearchQueryBuilder \<Rightarrow> PreparedQuery \<Rightarrow> jstring list" where
  "raw_clauses b r =
     [trim (originalInput r)]
     @ (if cleanedText r \<noteq> [] \<and>
           (alwaysIncludeCleaned b \<or> cleanedText r \<noteq> normalize_fn b (originalInput r))
        then [cleanedText r] else [])
     @ protectedPhrases r @ utteranceMatches r"

section \<open>Invariants of the automaton\<close>

text \<open>
  The invariants speak of the path of a state: the token sequence that leads to it from
  the root. The source does not store it; here it is a function \<open>P\<close> that the
  invariants constrain.
\<close>

definition sizes_ok :: "TokenAC \<Rightarrow> bool" where
  "sizes_ok a \<longleftrightarrow>
     0 < length (nxt a) \<and> length (fail a) = length (nxt a) \<and> length (out a) = length (nxt a) \<and>
     length (pLens a) = length (phrases a) \<and> fail a ! 0 = 0"

definition edges_ok :: "(nat \<Rightarrow> jstring list) \<Rightarrow> TokenAC \<Rightarrow> bool" where
  "edges_ok P a \<longleftrightarrow>
     (\<forall>v k u. v < length (nxt a) \<longrightarrow> map_of (nxt a ! v) k = Some u \<longrightarrow>
         v < u \<and> u < length (nxt a) \<and> P u = P v @ [k])"

definition fails_ok :: "(nat \<Rightarrow> jstring list) \<Rightarrow> TokenAC \<Rightarrow> bool" where
  "fails_ok P a \<longleftrightarrow>
     (\<forall>v. v < length (nxt a) \<longrightarrow> v \<noteq> 0 \<longrightarrow>
         P v \<noteq> [] \<and> fail a ! v < length (nxt a) \<and> length (P (fail a ! v)) < length (P v))"

definition outs_ok :: "TokenAC \<Rightarrow> bool" where
  "outs_ok a \<longleftrightarrow>
     (\<forall>v pid. v < length (nxt a) \<longrightarrow> pid \<in> set (out a ! v) \<longrightarrow> pid < length (phrases a))"

definition ac_inv :: "(nat \<Rightarrow> jstring list) \<Rightarrow> TokenAC \<Rightarrow> bool" where
  "ac_inv P a \<longleftrightarrow> P 0 = [] \<and> sizes_ok a \<and> edges_ok P a \<and> fails_ok P a \<and> outs_ok a"

text \<open>Distinct states have distinct paths, and every state but the root has a parent.\<close>

definition paths_ok :: "(nat \<Rightarrow> jstring list) \<Rightarrow> TokenAC \<Rightarrow> bool" where
  "paths_ok P a \<longleftrightarrow>
     (\<forall>u v. u < length (nxt a) \<longrightarrow> v < length (nxt a) \<longrightarrow> P u = P v \<longrightarrow> u = v) \<and>
     (\<forall>u. u < length (nxt a) \<longrightarrow> u \<noteq> 0 \<longrightarrow>
        (\<exists>v k. v < length (nxt a) \<and> map_of (nxt a ! v) k = Some u))"

text \<open>The branch of \<open>addTokens_step\<close> that makes a new state.\<close>

definition grow :: "jstring \<Rightarrow> nat \<Rightarrow> TokenAC \<Rightarrow> TokenAC" where
  "grow t node a =
     a\<lparr>nxt := (nxt a)[node := nxt a ! node @ [(t, length (nxt a))]] @ [[]],
       fail := fail a @ [0], out := out a @ [[]]\<rparr>"

text \<open>What a walk of \<^verbatim>\<open>addTokens\<close> may change: it adds states without output.\<close>

definition grown :: "(nat \<Rightarrow> jstring list) \<Rightarrow> TokenAC \<Rightarrow> (nat \<Rightarrow> jstring list) \<Rightarrow> TokenAC \<Rightarrow> bool" where
  "grown P a P1 a1 \<longleftrightarrow>
     length (nxt a) \<le> length (nxt a1) \<and> phrases a1 = phrases a \<and> pLens a1 = pLens a \<and>
     (\<forall>v. v < length (nxt a) \<longrightarrow> P1 v = P v \<and> out a1 ! v = out a ! v) \<and>
     (\<forall>v. length (nxt a) \<le> v \<longrightarrow> v < length (nxt a1) \<longrightarrow> out a1 ! v = [])"

text \<open>
  The phrase store against the list \<open>ins\<close> of the distinct non-empty token sequences
  inserted so far, in the order of their first insertion.
\<close>

definition store_ok :: "jstring list list \<Rightarrow> (nat \<Rightarrow> jstring list) \<Rightarrow> TokenAC \<Rightarrow> bool" where
  "store_ok ins P a \<longleftrightarrow>
     length (phrases a) = length ins \<and> distinct ins \<and> [] \<notin> set ins \<and>
     (\<forall>i. i < length ins \<longrightarrow>
        phrases a ! i = join [SPACE] (ins ! i) \<and> pLens a ! i = length (ins ! i) \<and>
        (\<exists>v. v < length (nxt a) \<and> P v = ins ! i \<and> out a ! v = [i])) \<and>
     (\<forall>v. v < length (nxt a) \<longrightarrow> out a ! v \<noteq> [] \<longrightarrow> P v \<in> set ins)"

text \<open>An automaton as the constructor makes it: phrases inserted, then \<^verbatim>\<open>build\<close> run once.\<close>

definition built_from :: "jstring list list \<Rightarrow> TokenAC \<Rightarrow> bool" where
  "built_from tss a \<longleftrightarrow> (\<exists>a0. foldM addTokens tss new_TokenAC = Some a0 \<and> build a0 = Some a)"

text \<open>The branch of \<open>addTokens\<close> that records a new phrase at the state \<open>node\<close>.\<close>

definition register :: "jstring list \<Rightarrow> nat \<Rightarrow> TokenAC \<Rightarrow> TokenAC" where
  "register tokens node a =
     a\<lparr>phrases := phrases a @ [join [SPACE] tokens],
       pLens := pLens a @ [length tokens],
       out := (out a)[node := out a ! node @ [length (phrases a)]]\<rparr>"

section \<open>Counting quotation marks\<close>

text \<open>
  The counts the specification speaks of: the straight quotes not immediately preceded by
  a backslash, the curly opening marks, the curly closing marks.
\<close>

definition straight_count :: "jstring \<Rightarrow> nat" where
  "straight_count s =
     length (filter (\<lambda>i. s ! i = DQUOTE \<and> (i = 0 \<or> s ! (i - 1) \<noteq> BACKSLASH)) [0..<length s])"

definition curly_opens :: "jstring \<Rightarrow> nat" where
  "curly_opens s = length (filter (\<lambda>c. c = LDQUO) s)"

definition curly_closes :: "jstring \<Rightarrow> nat" where
  "curly_closes s = length (filter (\<lambda>c. c = RDQUO) s)"

text \<open>
  The remainder as the specification words it for unbalanced input: every quote
  character deleted, whitespace runs collapsed, the result trimmed.
\<close>

definition strip_by_deletion :: "jstring \<Rightarrow> jstring" where
  "strip_by_deletion s = trim (collapse_ws (filter (\<lambda>c. \<not> isQuoteChar c) s))"

section \<open>A platform for the examples\<close>

text \<open>
  On strings of ASCII code units the three built-ins are known without any table:
  NFKC leaves them as they are and lower-casing moves \<open>A\<close>..\<open>Z\<close> to \<open>a\<close>..\<open>z\<close>.
\<close>

definition ascii_lower :: "jchar \<Rightarrow> jchar" where
  "ascii_lower c = (if 0x41 \<le> c \<and> c \<le> 0x5A then c + 0x20 else c)"

text \<open>
  The locale comparison on the strings of default tokens. On the characters that default
  tokens and the spaces between them hold, \<^verbatim>\<open>localeCompare\<close> compares character by
  character in the order space, hyphen, apostrophe, digits, letters: the order of the
  code units with the hyphen and the apostrophe exchanged.
\<close>

definition collation_rank :: "jchar \<Rightarrow> nat" where
  "collation_rank c = (if c = 0x2D then 0x27 else if c = 0x27 then 0x2D else unat c)"

fun rank_compare :: "(jchar \<Rightarrow> nat) \<Rightarrow> jstring \<Rightarrow> jstring \<Rightarrow> int" where
  "rank_compare k [] [] = 0"
| "rank_compare k [] (y # ys) = - 1"
| "rank_compare k (x # xs) [] = 1"
| "rank_compare k (x # xs) (y # ys) =
     (if k x < k y then - 1 else if k y < k x then 1 else rank_compare k xs ys)"

definition ascii_platform :: platform where
  "ascii_platform =
     \<lparr>normalizeNFKC = id, toLowerCase = map ascii_lower,
      localeCompare = rank_compare collation_rank\<rparr>"

text \<open>
  The platform on the strings made of the letters \<open>J\<close> and \<open>j\<close>, the combining caron
  \<open>U+030C\<close> and the letter \<open>U+01F0\<close> (j with caron): NFKC composes \<open>j\<close> followed by the
  caron into \<open>U+01F0\<close> and has no composite for \<open>J\<close> followed by the caron; lower-casing
  maps \<open>J\<close> to \<open>j\<close> and leaves the rest.
\<close>

fun compose_caron :: "jstring \<Rightarrow> jstring" where
  "compose_caron (c # d # s) =
     (if c = 0x6A \<and> d = 0x30C then 0x1F0 # compose_caron s else c # compose_caron (d # s))"
| "compose_caron s = s"

definition caron_platform :: platform where
  "caron_platform =
     \<lparr>normalizeNFKC = compose_caron, toLowerCase = map ascii_lower,
      localeCompare = rank_compare collation_rank\<rparr>"

definition no_options :: PrepareQueryOptions where
  "no_options =
     \<lparr>opt_stopWords = {}, opt_utterances = None, opt_pretokenizedUtterances = None,
      opt_normalize = None, opt_tokenize = None, opt_wrap = None,
      opt_alwaysIncludeCleaned = None, opt_acOverride = None\<rparr>"

text \<open>A wrap function that drops its argument.\<close>

definition empty_wrap :: "jstring \<Rightarrow> jstring" where
  "empty_wrap q = []"

definition drop_all_builder :: SearchQueryBuilder where
  "drop_all_builder =
     \<lparr>stopWords = {}, normalize_fn = defaultNormalize ascii_platform,
      tokenize_fn = defaultTokenize ascii_platform, wrap_fn = empty_wrap,
      alwaysIncludeCleaned = False, ac = new_TokenAC\<rparr>"

definition default_builder :: SearchQueryBuilder where
  "default_builder =
     \<lparr>stopWords = {}, normalize_fn = defaultNormalize ascii_platform,
      tokenize_fn = defaultTokenize ascii_platform, wrap_fn = defaultWrap,
      alwaysIncludeCleaned = False, ac = new_TokenAC\<rparr>"

section \<open>Notions for the matcher\<close>

text \<open>
  A comparator is consistent when \<open>cmp a b \<le> 0\<close> is a total preorder; the locale
  comparison of the platform is one.
\<close>

definition consistent_compare :: "('a \<Rightarrow> 'a \<Rightarrow> int) \<Rightarrow> bool" where
  "consistent_compare cmp \<longleftrightarrow>
     (\<forall>a b. cmp a b \<le> 0 \<or> cmp b a \<le> 0) \<and>
     (\<forall>a b c. cmp a b \<le> 0 \<longrightarrow> cmp b c \<le> 0 \<longrightarrow> cmp a c \<le> 0)"

text \<open>The order of the result: the longer string first, equal lengths in locale order.\<close>

definition longer_then_lex :: "platform \<Rightarrow> jstring \<Rightarrow> jstring \<Rightarrow> bool" where
  "longer_then_lex pf x y \<longleftrightarrow>
     length y < length x \<or> (length x = length y \<and> localeCompare pf x y \<le> 0)"

text \<open>
  Ascending lexicographic order of strings for a ranking of the characters, and the order
  of the specification with it: the longer string first, equal lengths in ascending
  lexicographic order. With the rank \<open>unat\<close> it is the order of the code units.
\<close>

fun lex_le :: "(jchar \<Rightarrow> nat) \<Rightarrow> jstring \<Rightarrow> jstring \<Rightarrow> bool" where
  "lex_le k [] ys = True"
| "lex_le k (x # xs) [] = False"
| "lex_le k (x # xs) (y # ys) = (k x < k y \<or> (k x = k y \<and> lex_le k xs ys))"

definition longer_then_lex_by :: "(jchar \<Rightarrow> nat) \<Rightarrow> jstring \<Rightarrow> jstring \<Rightarrow> bool" where
  "longer_then_lex_by k x y \<longleftrightarrow>
     length y < length x \<or> (length x = length y \<and> lex_le k x y)"

text \<open>
  The match candidates \<^verbatim>\<open>findAll\<close> meets, in the order in which it meets them: at
  position \<open>i\<close>, for each phrase id of the state reached that has a length, the window
  start, the end \<open>i\<close> and the phrase, when the start is not negative.
\<close>

type_synonym candidate = "int \<times> nat \<times> jstring"

definition outs_candidates :: "TokenAC \<Rightarrow> nat \<Rightarrow> nat list \<Rightarrow> candidate list" where
  "outs_candidates a i pids =
     concat (map (\<lambda>pid.
       if pid < length (pLens a) \<and> 0 \<le> int i - int (pLens a ! pid) + 1
       then [(int i - int (pLens a ! pid) + 1, i, phrases a ! pid)] else []) pids)"

fun scan_candidates :: "TokenAC \<Rightarrow> jstring list \<Rightarrow> nat \<Rightarrow> nat \<Rightarrow> candidate list option" where
  "scan_candidates a [] i state = Some []"
| "scan_candidates a (tok # toks) i state =
     (case chase a tok state of
        None \<Rightarrow> None
      | Some s \<Rightarrow>
          if s \<ge> length (nxt a) then None
          else (let state' = (case map_of (nxt a ! s) tok of None \<Rightarrow> 0 | Some ns \<Rightarrow> ns) in
                map_option
                  ((@) (if state' < length (out a) then outs_candidates a i (out a ! state') else []))
                  (scan_candidates a toks (i + 1) state')))"

text \<open>The update of the map \<^verbatim>\<open>best\<close> for one candidate.\<close>

definition keep_best :: "best_map \<Rightarrow> candidate \<Rightarrow> best_map" where
  "keep_best best c =
     (case c of (start, e, phrase) \<Rightarrow>
        (case map_of best start of
           None \<Rightarrow> best_set best start (e, phrase)
         | Some prev \<Rightarrow> if e > fst prev then best_set best start (e, phrase) else best))"

text \<open>
  \<open>b\<close> keeps, for each start among the candidates \<open>cs\<close>, one candidate of that start
  whose end is the largest.
\<close>

definition largest_per_start :: "candidate list \<Rightarrow> best_map \<Rightarrow> bool" where
  "largest_per_start cs b \<longleftrightarrow>
     distinct (map fst b) \<and> fst ` set b = fst ` set cs \<and>
     (\<forall>s e p. (s, e, p) \<in> set b \<longrightarrow>
        (s, e, p) \<in> set cs \<and> (\<forall>e' p'. (s, e', p') \<in> set cs \<longrightarrow> e' \<le> e))"

text \<open>The automata of the examples, made the way the constructor makes them.\<close>

definition made_from :: "jstring list list \<Rightarrow> TokenAC" where
  "made_from tss = the (Option.bind (foldM addTokens tss new_TokenAC) build)"

definition pre_clear_automaton :: TokenAC where
  "pre_clear_automaton =
     made_from [[js ''pre'', js ''clear''], [js ''pre'', js ''clear'', js ''trade'']]"

definition rbac_automaton :: TokenAC where
  "rbac_automaton = made_from [[js ''rbac''], [js ''abac''], [js ''rbac'']]"

text \<open>An automaton with the phrases \<open>a'b\<close> and \<open>a-b\<close>, one token each.\<close>

definition joiner_automaton :: TokenAC where
  "joiner_automaton = made_from [[js ''a'' @ [0x27] @ js ''b''], [js ''a-b'']]"

section \<open>Tokens\<close>

text \<open>
  The token pattern of the specification: runs of one or more alphanumeric characters,
  two neighbouring runs joined by a single hyphen or apostrophe.
\<close>

fun is_token :: "jstring \<Rightarrow> bool" where
  "is_token [] = False"
| "is_token [c] = isAlnum c"
| "is_token (c # d # s) = (isAlnum c \<and> (if isAlnum d then is_token (d # s) else isJoiner d \<and> is_token s))"

text \<open>The span from \<open>i\<close> up to \<open>j\<close> of \<open>s\<close> is a token; it lies in no other span that is one.\<close>

definition span_matches :: "jstring \<Rightarrow> nat \<Rightarrow> nat \<Rightarrow> bool" where
  "span_matches s i j \<longleftrightarrow> i < j \<and> j \<le> length s \<and> is_token (slice s i j)"

definition maximal_match :: "jstring \<Rightarrow> nat \<Rightarrow> nat \<Rightarrow> bool" where
  "maximal_match s i j \<longleftrightarrow>
     span_matches s i j \<and> (\<forall>i'\<in>{..i}. \<forall>j'\<in>{j..length s}. span_matches s i' j' \<longrightarrow> i' = i \<and> j' = j)"

text \<open>The spans of the matches that the loop of \<open>exec_loop\<close> takes, counted from \<open>off\<close>.\<close>

function exec_spans :: "nat \<Rightarrow> jstring \<Rightarrow> (nat \<times> nat) list" where
  "exec_spans off [] = []"
| "exec_spans off (c # s) =
     (case match_at (c # s) of
        Some n \<Rightarrow> (off, off + n) # exec_spans (off + n) (drop n (c # s))
      | None \<Rightarrow> exec_spans (off + 1) s)"
  by pat_completeness auto
termination
  by (relation "measure (\<lambda>(off, s). length s)") (auto simp: match_at_def split: if_splits)

text \<open>
  The pattern read with at most one join: one run of alphanumeric characters, or two runs
  with one hyphen or apostrophe between them.
\<close>

definition single_join :: "jstring \<Rightarrow> bool" where
  "single_join w \<longleftrightarrow>
     takeWhile isAlnum w \<noteq> [] \<and>
     (dropWhile isAlnum w = [] \<or>
      (isJoiner (hd (dropWhile isAlnum w)) \<and> tl (dropWhile isAlnum w) \<noteq> [] \<and>
       list_all isAlnum (tl (dropWhile isAlnum w))))"

section \<open>The scan of the quoted spans\<close>

text \<open>
  The loop of \<^verbatim>\<open>extractQuotedPhrasesBalanced\<close> once more, recording the positions whose
  character it appends to the remainder, and once more, recording the spans it skips:
  the position of the opening mark and the position of the closing mark found for it.
\<close>

function kept_from :: "jstring \<Rightarrow> nat \<Rightarrow> nat list" where
  "kept_from input i =
     (if i < length input then
        (let ch = input ! i; startStraight = (ch = DQUOTE); startCurly = (ch = LDQUO) in
         if startStraight \<or> startCurly then
           (case find_close input (if startStraight then DQUOTE else RDQUO) (i + 1) of
              Some found \<Rightarrow>
                if found > i then kept_from input (found + 1) else i # kept_from input (i + 1)
            | None \<Rightarrow> i # kept_from input (i + 1))
         else i # kept_from input (i + 1))
      else [])"
  by pat_completeness auto
termination
  by (relation "measure (\<lambda>(input, i). length input - i)") auto

declare kept_from.simps [simp del]

function spans_from :: "jstring \<Rightarrow> nat \<Rightarrow> (nat \<times> nat) list" where
  "spans_from input i =
     (if i < length input then
        (let ch = input ! i; startStraight = (ch = DQUOTE); startCurly = (ch = LDQUO) in
         if startStraight \<or> startCurly then
           (case find_close input (if startStraight then DQUOTE else RDQUO) (i + 1) of
              Some found \<Rightarrow>
                if found > i then (i, found) # spans_from input (found + 1) else spans_from input (i + 1)
            | None \<Rightarrow> spans_from input (i + 1))
         else spans_from input (i + 1))
      else [])"
  by pat_completeness auto
termination
  by (relation "measure (\<lambda>(input, i). length input - i)") auto

declare spans_from.simps [simp del]

text \<open>What the scan meets at a position: the closing mark of the span that opens at \<open>i\<close>.\<close>

definition span_at :: "jstring \<Rightarrow> nat \<Rightarrow> nat option" where
  "span_at input i =
     (if i < length input \<and> (input ! i = DQUOTE \<or> input ! i = LDQUO)
      then find_close input (if input ! i = DQUOTE then DQUOTE else RDQUO) (i + 1)
      else None)"

section \<open>Escaping\<close>

lemma replaceAll_twice:
  "replaceAll DQUOTE [BACKSLASH, DQUOTE] (replaceAll BACKSLASH [BACKSLASH, BACKSLASH] s)
     = concat (map escape_unit s)"
  by (induction s) (auto simp: replaceAll_def escape_unit_def DQUOTE_def BACKSLASH_def)

lemma quoteExact_shape: "quoteExact s = [DQUOTE] @ concat (map escape_unit s) @ [DQUOTE]"
  by (simp add: quoteExact_def replaceAll_twice)

lemma unescape_plain: "c \<noteq> BACKSLASH \<Longrightarrow> unescape (c # s) = c # unescape s"
  by (cases s) simp_all

lemma unescape_escape: "unescape (concat (map escape_unit s) @ t) = s @ unescape t"
proof (induction s)
  case Nil
  then show ?case by simp
next
  case (Cons c s)
  show ?case
  proof (cases "c = BACKSLASH \<or> c = DQUOTE")
    case True
    then show ?thesis using Cons by (auto simp: escape_unit_def)
  next
    case False
    then have "escape_unit c = [c]" by (simp add: escape_unit_def)
    then show ?thesis using False Cons by (simp add: unescape_plain)
  qed
qed

lemma dequote_quoteExact: "dequote (quoteExact s) = Some s"
proof -
  have "unescape (concat (map escape_unit s)) = s"
    using unescape_escape[of s "[]"] by simp
  then show ?thesis
    by (simp add: dequote_def quoteExact_shape butlast_append)
qed

lemma quoteExact_inj: "quoteExact s = quoteExact t \<Longrightarrow> s = t"
  by (metis dequote_quoteExact option.inject)

lemma clauses_of_map:
  assumes "\<not> quotesBalanced orig \<Longrightarrow> prot = []"
  shows "clauses_of b orig ctext prot matches =
     map quoteExact
       ([trim orig]
        @ (if ctext \<noteq> [] \<and> (alwaysIncludeCleaned b \<or> ctext \<noteq> normalize_fn b orig)
           then [ctext] else [])
        @ prot @ matches)"
  using assms by (auto simp: clauses_of_def Let_def)

lemma analyse_quotes_unbalanced:
  "\<not> quotesBalanced s \<Longrightarrow> analyse_quotes s = ([], stripStrayQuotes s)"
  by (simp add: analyse_quotes_def)

lemma prepare_nonempty:
  assumes "prepare pf b s = Some r" "trim s \<noteq> []"
  shows "\<exists>matches. findAll pf (ac b) (clean_tokens b (snd (analyse_quotes s))) = Some matches \<and>
     r = \<lparr>originalInput = s,
          protectedPhrases = fst (analyse_quotes s),
          cleanedTokens = clean_tokens b (snd (analyse_quotes s)),
          cleanedText = trim (join [SPACE] (clean_tokens b (snd (analyse_quotes s)))),
          utteranceMatches = matches,
          queryString = join (js '' OR '') (map (wrap_fn b)
            (uniq (clauses_of b s (trim (join [SPACE] (clean_tokens b (snd (analyse_quotes s)))))
                     (fst (analyse_quotes s)) matches))),
          hadUnbalancedQuotes = \<not> quotesBalanced s\<rparr>"
  using assms
  by (cases "analyse_quotes s") (auto simp: prepare_def Let_def split: option.splits)

lemma prepare_empty:
  assumes "trim s = []"
  shows "prepare pf b s = Some \<lparr>originalInput = s, protectedPhrases = [], cleanedTokens = [],
     cleanedText = [], utteranceMatches = [], queryString = [], hadUnbalancedQuotes = False\<rparr>"
  using assms by (simp add: prepare_def)

lemma prepare_query_clauses:
  assumes "prepare pf b s = Some r" "trim s \<noteq> []"
  shows "queryString r = join (js '' OR '') (map (wrap_fn b) (uniq (map quoteExact (raw_clauses b r))))"
proof -
  from prepare_nonempty[OF assms] obtain matches where
    r: "r = \<lparr>originalInput = s,
          protectedPhrases = fst (analyse_quotes s),
          cleanedTokens = clean_tokens b (snd (analyse_quotes s)),
          cleanedText = trim (join [SPACE] (clean_tokens b (snd (analyse_quotes s)))),
          utteranceMatches = matches,
          queryString = join (js '' OR '') (map (wrap_fn b)
            (uniq (clauses_of b s (trim (join [SPACE] (clean_tokens b (snd (analyse_quotes s)))))
                     (fst (analyse_quotes s)) matches))),
          hadUnbalancedQuotes = \<not> quotesBalanced s\<rparr>"
    by blast
  have p: "\<not> quotesBalanced s \<Longrightarrow> fst (analyse_quotes s) = []"
    by (simp add: analyse_quotes_unbalanced)
  show ?thesis
    by (subst r, subst r) (simp add: raw_clauses_def clauses_of_map[OF p])
qed

lemma dropWhile_fix: "xs = [] \<or> \<not> P (hd xs) \<Longrightarrow> dropWhile P xs = xs"
  by (cases xs) auto

lemma dropWhile_head: "dropWhile P xs = [] \<or> \<not> P (hd (dropWhile P xs))"
  using hd_dropWhile[of P xs] by blast

lemma dropWhile_last: "dropWhile P xs \<noteq> [] \<Longrightarrow> last (dropWhile P xs) = last xs"
  using takeWhile_dropWhile_id[of P xs] last_appendR[of "dropWhile P xs" "takeWhile P xs"] by simp

lemma trim_empty_iff: "trim s = [] \<longleftrightarrow> (\<forall>c\<in>set s. isWhiteSpace c)"
proof -
  define d where "d = dropWhile isWhiteSpace s"
  have 1: "(\<forall>x\<in>set d. isWhiteSpace x) \<longleftrightarrow> d = []"
  proof
    assume a: "\<forall>x\<in>set d. isWhiteSpace x"
    show "d = []"
    proof (rule ccontr)
      assume n: "d \<noteq> []"
      then have "\<not> isWhiteSpace (hd d)" using dropWhile_head[of isWhiteSpace s] unfolding d_def by blast
      moreover have "hd d \<in> set d" using n by simp
      ultimately show False using a by blast
    qed
  next
    assume "d = []" then show "\<forall>x\<in>set d. isWhiteSpace x" by simp
  qed
  have "trim s = [] \<longleftrightarrow> (\<forall>x\<in>set d. isWhiteSpace x)"
    by (simp add: trim_def d_def dropWhile_eq_Nil_conv)
  also have "\<dots> \<longleftrightarrow> d = []" using 1 .
  also have "\<dots> \<longleftrightarrow> (\<forall>c\<in>set s. isWhiteSpace c)" by (simp add: d_def dropWhile_eq_Nil_conv)
  finally show ?thesis .
qed

lemma trim_ends:
  "trim s = [] \<or> (\<not> isWhiteSpace (hd (trim s)) \<and> \<not> isWhiteSpace (last (trim s)))"
proof (cases "trim s = []")
  case True then show ?thesis by simp
next
  case False
  define d where "d = dropWhile isWhiteSpace s"
  define e where "e = dropWhile isWhiteSpace (rev d)"
  have t: "trim s = rev e" by (simp add: trim_def d_def e_def)
  have e0: "e \<noteq> []" using False t by simp
  then have d0: "d \<noteq> []" unfolding e_def by auto
  have "\<not> isWhiteSpace (hd e)" using dropWhile_head[of isWhiteSpace "rev d"] e0 unfolding e_def by blast
  moreover have "last e = last (rev d)" using dropWhile_last[of isWhiteSpace "rev d"] e0 unfolding e_def by blast
  then have "last e = hd d" using d0 by (simp add: last_rev)
  moreover have "\<not> isWhiteSpace (hd d)" using dropWhile_head[of isWhiteSpace s] d0 unfolding d_def by blast
  ultimately have "\<not> isWhiteSpace (hd e)" "\<not> isWhiteSpace (last e)" by simp_all
  then have "\<not> isWhiteSpace (hd e) \<and> \<not> isWhiteSpace (last e)" by simp
  moreover note t e0
  ultimately show ?thesis by (simp add: hd_rev last_rev)
qed

lemma trim_fix:
  assumes "t = [] \<or> (\<not> isWhiteSpace (hd t) \<and> \<not> isWhiteSpace (last t))"
  shows "trim t = t"
proof (cases "t = []")
  case True then show ?thesis by (simp add: trim_def)
next
  case False
  have 1: "dropWhile isWhiteSpace t = t" using assms by (intro dropWhile_fix) blast
  have "\<not> isWhiteSpace (hd (rev t))" using assms False by (simp add: hd_rev)
  then have "dropWhile isWhiteSpace (rev t) = rev t" by (intro dropWhile_fix) blast
  then show ?thesis using 1 by (simp add: trim_def)
qed

lemma trim_idem: "trim (trim s) = trim s"
  using trim_fix[OF trim_ends[of s]] .

lemma set_add_cases: "set_add acc x = acc \<or> set_add acc x = acc @ [x]"
  by (simp add: set_add_def)

lemma set_set_add: "set (set_add acc x) = insert x (set acc)"
  by (auto simp: set_add_def)

lemma distinct_set_add: "distinct acc \<Longrightarrow> distinct (set_add acc x)"
  by (simp add: set_add_def)

lemma foldl_set_add_prefix: "\<exists>ys. foldl set_add acc xs = acc @ ys"
proof (induction xs arbitrary: acc)
  case Nil then show ?case by simp
next
  case (Cons x xs)
  from Cons[of "set_add acc x"] obtain ys where
    y: "foldl set_add (set_add acc x) xs = set_add acc x @ ys" by blast
  from set_add_cases[of acc x] show ?case
  proof
    assume "set_add acc x = acc" then show ?thesis using y by simp
  next
    assume "set_add acc x = acc @ [x]" then show ?thesis using y by simp
  qed
qed

lemma uniq_Cons: "\<exists>ys. uniq (x # xs) = x # ys"
proof -
  have "set_add [] x = [x]" by (simp add: set_add_def)
  then show ?thesis using foldl_set_add_prefix[of "[x]" xs] by (simp add: uniq_def)
qed

lemma set_foldl_set_add: "set (foldl set_add acc xs) = set acc \<union> set xs"
  by (induction xs arbitrary: acc) (simp_all add: set_set_add)

lemma distinct_foldl_set_add: "distinct acc \<Longrightarrow> distinct (foldl set_add acc xs)"
  by (induction xs arbitrary: acc) (simp_all add: distinct_set_add)

lemma set_uniq: "set (uniq xs) = set xs"
  by (simp add: uniq_def set_foldl_set_add)

lemma distinct_uniq: "distinct (uniq xs)"
  by (simp add: uniq_def distinct_foldl_set_add)

lemma join_Cons_nonempty: "x \<noteq> [] \<Longrightarrow> join sep (x # xs) \<noteq> []"
  by (cases xs) auto

lemma join_two_nonempty: "sep \<noteq> [] \<Longrightarrow> join sep (x # y # xs) \<noteq> []"
  by simp

lemma quoteExact_nonempty: "quoteExact s \<noteq> []"
  by (simp add: quoteExact_def Let_def)

lemma clauses_of_Cons: "\<exists>cs. clauses_of b orig ctext prot matches = quoteExact (trim orig) # cs"
  by (simp add: clauses_of_def Let_def)

lemma query_nonempty:
  assumes "\<forall>q. wrap_fn b q \<noteq> []"
  shows "join (js '' OR '') (map (wrap_fn b) (uniq (clauses_of b orig ctext prot matches))) \<noteq> []"
proof -
  from clauses_of_Cons[of b orig ctext prot matches] obtain cs where
    "clauses_of b orig ctext prot matches = quoteExact (trim orig) # cs" by blast
  with uniq_Cons[of "quoteExact (trim orig)" cs] obtain ys where
    "uniq (clauses_of b orig ctext prot matches) = quoteExact (trim orig) # ys" by auto
  then show ?thesis using assms join_Cons_nonempty by simp
qed

lemma defaultWrap_nonempty: "defaultWrap q \<noteq> []"
  by (simp add: defaultWrap_def js_def)


section \<open>The token pattern\<close>

lemma joiner_not_alnum: "isJoiner c \<Longrightarrow> \<not> isAlnum c"
  by (auto simp: isJoiner_def isAlnum_def)

lemma alnum_not_white: "isAlnum c \<Longrightarrow> \<not> isWhiteSpace c"
  by (auto simp: isAlnum_def isWhiteSpace_def)

lemma joiner_not_white: "isJoiner c \<Longrightarrow> \<not> isWhiteSpace c"
  by (auto simp: isJoiner_def isWhiteSpace_def)

lemma is_token_head: "is_token w \<Longrightarrow> w \<noteq> [] \<and> isAlnum (hd w)"
  by (induction w rule: is_token.induct) auto

lemma is_token_chars: "is_token w \<Longrightarrow> c \<in> set w \<Longrightarrow> isAlnum c \<or> isJoiner c"
  by (induction w rule: is_token.induct) (auto split: if_splits)

lemma is_token_inner:
  "is_token (u @ c # v) \<Longrightarrow> u \<noteq> [] \<Longrightarrow> \<not> isAlnum c \<Longrightarrow> isJoiner c \<and> v \<noteq> [] \<and> isAlnum (hd v)"
proof (induction u rule: is_token.induct)
  case 1
  then show ?case by simp
next
  case (2 a)
  then show ?case using is_token_head[of v] by (auto split: if_splits)
next
  case (3 a b u)
  show ?case
  proof (cases "isAlnum b")
    case True
    then have "is_token ((b # u) @ c # v)" using 3(3) by simp
    then show ?thesis using 3(1)[OF True] 3(5) by simp
  next
    case False
    then have t: "is_token (u @ c # v)" using 3(3) by simp
    show ?thesis
    proof (cases "u = []")
      case True
      then show ?thesis using t is_token_head[of "c # v"] 3(5) by simp
    next
      case nu: False
      then show ?thesis using 3(2)[OF False t] 3(5) by simp
    qed
  qed
qed

lemma is_token_run:
  assumes "r \<noteq> []" "\<forall>c\<in>set r. isAlnum c" "x = [] \<or> (isJoiner (hd x) \<and> is_token (tl x))"
  shows "is_token (r @ x)"
  using assms
proof (induction r rule: is_token.induct)
  case 1
  then show ?case by simp
next
  case (2 a)
  show ?case
  proof (cases x)
    case Nil
    then show ?thesis using 2 by simp
  next
    case (Cons c v)
    then show ?thesis using 2 joiner_not_alnum[of c] by auto
  qed
next
  case (3 a b r)
  then show ?case by simp
qed

lemma take_run: "take (length (takeWhile P s) + n) s = takeWhile P s @ take n (dropWhile P s)"
proof -
  have "take (length (takeWhile P s) + n) (takeWhile P s @ dropWhile P s)
      = takeWhile P s @ take n (dropWhile P s)"
    by (simp only: take_append) simp
  then show ?thesis by simp
qed

lemma drop_run: "drop (length (takeWhile P s) + n) s = drop n (dropWhile P s)"
proof -
  have "drop (length (takeWhile P s) + n) (takeWhile P s @ dropWhile P s) = drop n (dropWhile P s)"
    by (simp only: drop_append) simp
  then show ?thesis by simp
qed

lemma takeWhile_all: "\<forall>c\<in>set (takeWhile P s). P c"
  by (meson set_takeWhileD)

lemma match_groups_le: "match_groups u \<le> length u"
proof (induction u rule: match_groups.induct)
  case 1
  then show ?case by simp
next
  case (2 c s)
  show ?case
  proof (cases "isJoiner c \<and> takeWhile isAlnum s \<noteq> []")
    case True
    have "length (takeWhile isAlnum s) + length (dropWhile isAlnum s) = length s"
      using takeWhile_dropWhile_id[of isAlnum s] by (metis length_append)
    then show ?thesis using 2[OF True] True by simp
  next
    case False
    then show ?thesis by auto
  qed
qed

lemma match_groups_tail:
  "take (match_groups u) u = [] \<or>
   (isJoiner (hd (take (match_groups u) u)) \<and> is_token (tl (take (match_groups u) u)))"
proof (induction u rule: match_groups.induct)
  case 1
  then show ?case by simp
next
  case (2 c s)
  show ?case
  proof (cases "isJoiner c \<and> takeWhile isAlnum s \<noteq> []")
    case True
    let ?r = "takeWhile isAlnum s"
    let ?g = "match_groups (dropWhile isAlnum s)"
    have m: "match_groups (c # s) = 1 + length ?r + ?g" using True by simp
    have t: "take (match_groups (c # s)) (c # s) = c # (?r @ take ?g (dropWhile isAlnum s))"
      unfolding m using take_run[of isAlnum s ?g] by simp
    have "is_token (?r @ take ?g (dropWhile isAlnum s))"
      using True takeWhile_all[of isAlnum s] 2[OF True] by (intro is_token_run) auto
    then show ?thesis unfolding t using True by simp
  next
    case False
    then show ?thesis by auto
  qed
qed

lemma match_groups_stop:
  assumes "u = [] \<or> \<not> isAlnum (hd u)"
  shows "drop (match_groups u) u = [] \<or>
     (\<not> isAlnum (hd (drop (match_groups u) u)) \<and>
      (isJoiner (hd (drop (match_groups u) u)) \<longrightarrow>
         tl (drop (match_groups u) u) = [] \<or> \<not> isAlnum (hd (tl (drop (match_groups u) u)))))"
  using assms
proof (induction u rule: match_groups.induct)
  case 1
  then show ?case by simp
next
  case (2 c s)
  show ?case
  proof (cases "isJoiner c \<and> takeWhile isAlnum s \<noteq> []")
    case True
    let ?r = "takeWhile isAlnum s"
    let ?d = "dropWhile isAlnum s"
    have m: "match_groups (c # s) = 1 + length ?r + match_groups ?d" using True by simp
    have d: "drop (match_groups (c # s)) (c # s) = drop (match_groups ?d) ?d"
      unfolding m using drop_run[of isAlnum s "match_groups ?d"] by simp
    have "?d = [] \<or> \<not> isAlnum (hd ?d)" using dropWhile_head[of isAlnum s] .
    from 2(1)[OF True this] show ?thesis unfolding d .
  next
    case False
    then have m: "match_groups (c # s) = 0" by auto
    have "isJoiner c \<Longrightarrow> s = [] \<or> \<not> isAlnum (hd s)"
      using False by (cases s) auto
    then show ?thesis unfolding m using 2(2) by auto
  qed
qed


lemma match_at_None: "match_at t = None \<longleftrightarrow> t = [] \<or> \<not> isAlnum (hd t)"
  by (cases t) (auto simp: match_at_def)

lemma match_at_token:
  assumes "match_at t = Some m"
  shows "0 < m \<and> m \<le> length t \<and> is_token (take m t)"
proof -
  let ?r = "takeWhile isAlnum t"
  let ?d = "dropWhile isAlnum t"
  let ?g = "match_groups ?d"
  have r: "?r \<noteq> []" and m: "m = length ?r + ?g"
    using assms by (auto simp: match_at_def split: if_splits)
  have "length ?r + length ?d = length t"
    using takeWhile_dropWhile_id[of isAlnum t] by (metis length_append)
  then have le: "m \<le> length t" using match_groups_le[of ?d] m by simp
  have tk: "take m t = ?r @ take ?g ?d" unfolding m by (rule take_run)
  have "is_token (?r @ take ?g ?d)"
    using r takeWhile_all[of isAlnum t] match_groups_tail[of ?d] by (intro is_token_run) auto
  then show ?thesis using r le m tk by simp
qed

lemma match_at_stop:
  assumes "match_at t = Some m"
  shows "drop m t = [] \<or>
     (\<not> isAlnum (hd (drop m t)) \<and>
      (isJoiner (hd (drop m t)) \<longrightarrow> tl (drop m t) = [] \<or> \<not> isAlnum (hd (tl (drop m t)))))"
proof -
  let ?r = "takeWhile isAlnum t"
  let ?d = "dropWhile isAlnum t"
  have m: "m = length ?r + match_groups ?d"
    using assms by (auto simp: match_at_def split: if_splits)
  have d: "drop m t = drop (match_groups ?d) ?d" unfolding m by (rule drop_run)
  have "?d = [] \<or> \<not> isAlnum (hd ?d)" using dropWhile_head[of isAlnum t] .
  from match_groups_stop[OF this] show ?thesis unfolding d .
qed

lemma slice_append: "i \<le> k \<Longrightarrow> k \<le> j \<Longrightarrow> slice s i j = slice s i k @ slice s k j"
proof -
  assume a: "i \<le> k" "k \<le> j"
  have "take (j - i) (drop i s) = take (k - i) (drop i s) @ take (j - k) (drop (k - i) (drop i s))"
    using a take_add[of "k - i" "j - k" "drop i s"] by simp
  then show ?thesis using a by (simp add: slice_def)
qed

lemma slice_Cons: "k < j \<Longrightarrow> k < length s \<Longrightarrow> slice s k j = s ! k # slice s (Suc k) j"
proof -
  assume a: "k < j" "k < length s"
  have "drop k s = s ! k # drop (Suc k) s" using a by (simp add: Cons_nth_drop_Suc)
  moreover have "j - k = Suc (j - Suc k)" using a by simp
  ultimately show ?thesis by (simp add: slice_def)
qed

lemma slice_empty_iff: "j \<le> length s \<Longrightarrow> slice s i j = [] \<longleftrightarrow> j \<le> i"
  by (auto simp: slice_def)

lemma match_at_stop_nth:
  assumes "match_at (drop off s) = Some m" "off + m < length s"
  shows "\<not> isAlnum (s ! (off + m)) \<and>
     (isJoiner (s ! (off + m)) \<longrightarrow> Suc (off + m) < length s \<longrightarrow> \<not> isAlnum (s ! Suc (off + m)))"
proof -
  have d: "drop m (drop off s) = s ! (off + m) # drop (Suc (off + m)) s"
    using assms(2) by (simp add: Cons_nth_drop_Suc add.commute)
  have "Suc (off + m) < length s \<Longrightarrow> hd (drop (Suc (off + m)) s) = s ! Suc (off + m)"
    by (simp add: hd_drop_conv_nth)
  then show ?thesis using match_at_stop[OF assms(1)] unfolding d by auto
qed

lemma span_within:
  assumes B: "\<And>i j. span_matches s i j \<Longrightarrow> \<not> (i < off \<and> off < j)"
    and m: "match_at (drop off s) = Some m"
    and sp: "span_matches s i j" and lo: "i < off + m" and hi: "off < j"
  shows "off \<le> i \<and> j \<le> off + m"
proof -
  have i: "off \<le> i" using B[OF sp] hi by simp
  have j: "j \<le> length s" and tok: "is_token (slice s i j)" using sp by (auto simp: span_matches_def)
  have "j \<le> off + m"
  proof (rule ccontr)
    assume "\<not> j \<le> off + m"
    then have gt: "off + m < j" by simp
    then have lt: "off + m < length s" using j by simp
    let ?k = "off + m"
    have split: "slice s i j = slice s i ?k @ s ! ?k # slice s (Suc ?k) j"
      using slice_append[of i ?k j s] slice_Cons[of ?k j s] lo gt lt by simp
    have u: "slice s i ?k \<noteq> []" using slice_empty_iff[of ?k s i] lo lt by simp
    have st: "\<not> isAlnum (s ! ?k)"
      and st2: "isJoiner (s ! ?k) \<Longrightarrow> Suc ?k < length s \<Longrightarrow> \<not> isAlnum (s ! Suc ?k)"
      using match_at_stop_nth[OF m lt] by blast+
    have in1: "isJoiner (s ! ?k)" and in2: "slice s (Suc ?k) j \<noteq> []"
      and in3: "isAlnum (hd (slice s (Suc ?k) j))"
      using is_token_inner[of "slice s i ?k" "s ! ?k" "slice s (Suc ?k) j"] tok u st
      unfolding split by blast+
    have sj: "Suc ?k < j" using in2 slice_empty_iff[of j s "Suc ?k"] j by simp
    then have sl: "Suc ?k < length s" using j by simp
    have "hd (slice s (Suc ?k) j) = s ! Suc ?k"
      using slice_Cons[of "Suc ?k" j s] sj sl by simp
    then show False using in3 st2[OF in1 sl] by simp
  qed
  then show ?thesis using i by simp
qed

lemma span_first:
  assumes m: "match_at (drop off s) = Some m" and off: "off \<le> length s"
  shows "span_matches s off (off + m)"
proof -
  have "0 < m" "m \<le> length (drop off s)" "is_token (take m (drop off s))"
    using match_at_token[OF m] by blast+
  then show ?thesis using off by (simp add: span_matches_def slice_def)
qed

lemma no_span_at:
  assumes "match_at (drop off s) = None" "span_matches s off j"
  shows False
proof -
  have j: "off < j" "j \<le> length s" and tok: "is_token (slice s off j)"
    using assms(2) by (auto simp: span_matches_def)
  have "slice s off j = s ! off # slice s (Suc off) j" using slice_Cons[of off j s] j by simp
  then have al: "isAlnum (s ! off)" using is_token_head[OF tok] by simp
  have "drop off s = s ! off # drop (Suc off) s" using j by (simp add: Cons_nth_drop_Suc)
  then show False using assms(1) al by (simp add: match_at_None)
qed


lemma maximal_match_iff:
  "maximal_match s i j \<longleftrightarrow>
     span_matches s i j \<and> (\<forall>i' j'. i' \<le> i \<longrightarrow> j \<le> j' \<longrightarrow> span_matches s i' j' \<longrightarrow> i' = i \<and> j' = j)"
proof -
  have "\<And>i' j'. span_matches s i' j' \<Longrightarrow> j' \<le> length s" by (simp add: span_matches_def)
  then show ?thesis unfolding maximal_match_def by (metis atLeastAtMost_iff atMost_iff)
qed

lemma exec_spans_maximal:
  assumes "off \<le> length s" "\<And>i j. span_matches s i j \<Longrightarrow> \<not> (i < off \<and> off < j)"
  shows "set (exec_spans off (drop off s)) = {(i, j). off \<le> i \<and> maximal_match s i j}"
  using assms
proof (induct "length s - off" arbitrary: off rule: less_induct)
  case less
  note B = less.prems(2)
  show ?case
  proof (cases "off = length s")
    case True
    have "\<And>i j. off \<le> i \<Longrightarrow> \<not> span_matches s i j" using True by (auto simp: span_matches_def)
    then have "{(i, j). off \<le> i \<and> maximal_match s i j} = {}" by (auto simp: maximal_match_iff)
    then show ?thesis using True by simp
  next
    case False
    then have lt: "off < length s" using less.prems(1) by simp
    have d: "drop off s = s ! off # drop (Suc off) s" using lt by (simp add: Cons_nth_drop_Suc)
    show ?thesis
    proof (cases "match_at (drop off s)")
      case None
      have ns: "\<And>j. \<not> span_matches s off j" using no_span_at[OF None] by blast
      have B': "\<And>i j. span_matches s i j \<Longrightarrow> \<not> (i < Suc off \<and> Suc off < j)"
      proof
        fix i j assume sp: "span_matches s i j" and c: "i < Suc off \<and> Suc off < j"
        show False
        proof (cases "i = off")
          case True then show ?thesis using sp ns by blast
        next
          case False then show ?thesis using B[OF sp] c by simp
        qed
      qed
      have ih: "set (exec_spans (Suc off) (drop (Suc off) s)) = {(i, j). Suc off \<le> i \<and> maximal_match s i j}"
        using less.hyps[of "Suc off"] lt B' by simp
      have e: "exec_spans off (drop off s) = exec_spans (Suc off) (drop (Suc off) s)"
        using None unfolding d by simp
      have "\<And>i j. maximal_match s i j \<Longrightarrow> i \<noteq> off" using ns by (auto simp: maximal_match_iff)
      then have "{(i, j). off \<le> i \<and> maximal_match s i j} = {(i, j). Suc off \<le> i \<and> maximal_match s i j}"
        by (auto simp: Suc_le_eq le_less)
      then show ?thesis unfolding e ih by simp
    next
      case (Some m)
      have mp: "0 < m" and ml: "off + m \<le> length s"
        using match_at_token[OF Some] by auto
      have first: "span_matches s off (off + m)" using span_first[OF Some less.prems(1)] .
      have within: "\<And>i j. span_matches s i j \<Longrightarrow> i < off + m \<Longrightarrow> off < j \<Longrightarrow> off \<le> i \<and> j \<le> off + m"
        using span_within[of s off m] B Some by blast
      have B': "\<And>i j. span_matches s i j \<Longrightarrow> \<not> (i < off + m \<and> off + m < j)"
      proof
        fix i j assume sp: "span_matches s i j" and c: "i < off + m \<and> off + m < j"
        then have "j \<le> off + m" using within[OF sp] mp by simp
        then show False using c by simp
      qed
      have ih: "set (exec_spans (off + m) (drop (off + m) s)) = {(i, j). off + m \<le> i \<and> maximal_match s i j}"
        using less.hyps[of "off + m"] lt mp ml B' by simp
      have e: "exec_spans off (drop off s) = (off, off + m) # exec_spans (off + m) (drop (off + m) s)"
      proof -
        have "drop m (s ! off # drop (Suc off) s) = drop (off + m) s"
          using d by (metis add.commute drop_drop)
        then show ?thesis using Some unfolding d by simp
      qed
      have mx: "maximal_match s off (off + m)"
        unfolding maximal_match_iff
      proof (intro conjI allI impI)
        show "span_matches s off (off + m)" by (rule first)
      next
        fix i' j' assume a: "i' \<le> off" "off + m \<le> j'" "span_matches s i' j'"
        then have "off \<le> i' \<and> j' \<le> off + m" using within[OF a(3)] mp by simp
        then show "i' = off" "j' = off + m" using a by simp_all
      qed
      have only: "\<And>i j. maximal_match s i j \<Longrightarrow> off \<le> i \<Longrightarrow> i < off + m \<Longrightarrow> i = off \<and> j = off + m"
      proof -
        fix i j assume a: "maximal_match s i j" "off \<le> i" "i < off + m"
        then have sp: "span_matches s i j" by (simp add: maximal_match_iff)
        then have "i < j" by (simp add: span_matches_def)
        then have "j \<le> off + m" using within[OF sp a(3)] a(2) by simp
        then show "i = off \<and> j = off + m" using a first unfolding maximal_match_iff by blast
      qed
      have "{(i, j). off \<le> i \<and> maximal_match s i j}
          = insert (off, off + m) {(i, j). off + m \<le> i \<and> maximal_match s i j}"
      proof (intro set_eqI iffI)
        fix x assume "x \<in> {(i, j). off \<le> i \<and> maximal_match s i j}"
        then obtain i j where x: "x = (i, j)" "off \<le> i" "maximal_match s i j" by auto
        show "x \<in> insert (off, off + m) {(i, j). off + m \<le> i \<and> maximal_match s i j}"
        proof (cases "i < off + m")
          case True then show ?thesis using only[OF x(3) x(2)] x(1) by simp
        next
          case False then show ?thesis using x by simp
        qed
      next
        fix x assume "x \<in> insert (off, off + m) {(i, j). off + m \<le> i \<and> maximal_match s i j}"
        then show "x \<in> {(i, j). off \<le> i \<and> maximal_match s i j}" using mx by auto
      qed
      then show ?thesis unfolding e by (simp add: ih)
    qed
  qed
qed

lemma exec_spans_order:
  "sorted_wrt (\<lambda>a b. snd a \<le> fst b) (exec_spans off t) \<and>
   (\<forall>a\<in>set (exec_spans off t). off \<le> fst a \<and> fst a < snd a)"
proof (induction off t rule: exec_spans.induct)
  case (1 off)
  then show ?case by simp
next
  case (2 off c s)
  show ?case
  proof (cases "match_at (c # s)")
    case None
    then show ?thesis using 2(1)[OF None] by auto
  next
    case (Some m)
    have "0 < m" using match_at_token[OF Some] by simp
    then show ?thesis using Some 2(2)[OF Some] by auto
  qed
qed

lemma exec_loop_spans:
  "off \<le> length s \<Longrightarrow>
   exec_loop (drop off s) = map (\<lambda>(i, j). slice s i j) (exec_spans off (drop off s))"
proof (induct "length s - off" arbitrary: off rule: less_induct)
  case less
  show ?case
  proof (cases "off = length s")
    case True
    then show ?thesis by simp
  next
    case False
    then have lt: "off < length s" using less.prems by simp
    have d: "drop off s = s ! off # drop (Suc off) s" using lt by (simp add: Cons_nth_drop_Suc)
    show ?thesis
    proof (cases "match_at (drop off s)")
      case None
      have "exec_loop (drop (Suc off) s) = map (\<lambda>(i, j). slice s i j) (exec_spans (Suc off) (drop (Suc off) s))"
        using less.hyps[of "Suc off"] lt by simp
      then show ?thesis using None unfolding d by simp
    next
      case (Some m)
      have mp: "0 < m" and ml: "off + m \<le> length s"
        using match_at_token[OF Some] by auto
      have dd: "drop m (s ! off # drop (Suc off) s) = drop (off + m) s"
        using d by (metis add.commute drop_drop)
      have tk: "take m (s ! off # drop (Suc off) s) = slice s off (off + m)"
        using d by (simp add: slice_def)
      have "exec_loop (drop (off + m) s) = map (\<lambda>(i, j). slice s i j) (exec_spans (off + m) (drop (off + m) s))"
        using less.hyps[of "off + m"] lt mp ml by simp
      then show ?thesis using Some unfolding d by (simp only: exec_loop.simps exec_spans.simps option.case dd tk) simp
    qed
  qed
qed

lemma exec_loop_tokens: "w \<in> set (exec_loop t) \<Longrightarrow> is_token w"
proof (induction t rule: exec_loop.induct)
  case 1
  then show ?case by simp
next
  case (2 c s)
  show ?case
  proof (cases "match_at (c # s)")
    case None
    then show ?thesis using 2 by simp
  next
    case (Some m)
    then show ?thesis using 2(2)[OF Some] 2(3) match_at_token[OF Some] by auto
  qed
qed

section \<open>The automaton keeps its invariants\<close>

lemma ac_inv_new: "ac_inv (\<lambda>_. []) new_TokenAC"
  by (simp add: ac_inv_def sizes_ok_def edges_ok_def fails_ok_def outs_ok_def new_TokenAC_def)

lemma ac_inv_sizes: "ac_inv P a \<Longrightarrow> sizes_ok a"
  by (simp add: ac_inv_def)

lemma ac_inv_edge:
  assumes "ac_inv P a" "v < length (nxt a)" "map_of (nxt a ! v) k = Some u"
  shows "v < u \<and> u < length (nxt a) \<and> P u = P v @ [k]"
proof -
  have "edges_ok P a" using assms(1) by (simp add: ac_inv_def)
  then show ?thesis using assms(2,3) unfolding edges_ok_def by blast
qed

lemma ac_inv_fail:
  assumes "ac_inv P a" "v < length (nxt a)"
  shows "fail a ! v < length (nxt a)"
proof (cases "v = 0")
  case True
  have "sizes_ok a" using assms(1) by (simp add: ac_inv_def)
  then show ?thesis using True by (simp add: sizes_ok_def)
next
  case False
  have "fails_ok P a" using assms(1) by (simp add: ac_inv_def)
  then show ?thesis using assms(2) False unfolding fails_ok_def by blast
qed

lemma ac_inv_fail_less:
  assumes "ac_inv P a" "v < length (nxt a)" "v \<noteq> 0"
  shows "length (P (fail a ! v)) < length (P v)"
proof -
  have "fails_ok P a" using assms(1) by (simp add: ac_inv_def)
  then show ?thesis using assms(2,3) unfolding fails_ok_def by blast
qed

lemma chase_total:
  assumes "ac_inv P a"
  shows "j < length (nxt a) \<Longrightarrow>
    \<exists>j'. chase a k j = Some j' \<and> j' < length (nxt a) \<and> length (P j') \<le> length (P j)"
proof (induction "length (P j)" arbitrary: j rule: less_induct)
  case less
  have len: "length (fail a) = length (nxt a)" using ac_inv_sizes[OF assms] by (simp add: sizes_ok_def)
  show ?case
  proof (cases "j = 0")
    case True
    have "chase a k j = Some j" by (subst chase.simps) (simp add: True)
    then show ?thesis using less.prems by simp
  next
    case j0: False
    show ?thesis
    proof (cases "map_of (nxt a ! j) k")
      case (Some u)
      have "chase a k j = Some j" by (subst chase.simps) (use less.prems in \<open>simp add: j0 Some\<close>)
      then show ?thesis using less.prems by simp
    next
      case None
      have fl: "fail a ! j < length (nxt a)" using ac_inv_fail[OF assms less.prems] .
      have dl: "length (P (fail a ! j)) < length (P j)"
        using ac_inv_fail_less[OF assms less.prems j0] .
      from less.hyps[OF dl fl] obtain j' where
        c: "chase a k (fail a ! j) = Some j'" and b: "j' < length (nxt a)"
        and l: "length (P j') \<le> length (P (fail a ! j))"
        by blast
      have "chase a k j = Some j'"
        by (subst chase.simps) (use less.prems in \<open>simp add: j0 None len c\<close>)
      then show ?thesis using b l dl by simp
    qed
  qed
qed


lemma addTokens_step_old:
  assumes "node < length (nxt a)" "map_of (nxt a ! node) t = Some child"
  shows "addTokens_step t (a, node) = Some (a, child)"
  using assms by (simp add: addTokens_step_def)

lemma addTokens_step_new:
  assumes "node < length (nxt a)" "map_of (nxt a ! node) t = None"
  shows "addTokens_step t (a, node) = Some (grow t node a, length (nxt a))"
  using assms by (simp add: addTokens_step_def grow_def Let_def)

lemma grow_fields [simp]:
  "length (nxt (grow t node a)) = Suc (length (nxt a))"
  "fail (grow t node a) = fail a @ [0]"
  "out (grow t node a) = out a @ [[]]"
  "phrases (grow t node a) = phrases a"
  "pLens (grow t node a) = pLens a"
  by (simp_all add: grow_def)

lemma grow_nxt_nth:
  assumes "node < length (nxt a)" "v \<le> length (nxt a)"
  shows "nxt (grow t node a) ! v =
     (if v = length (nxt a) then []
      else if v = node then nxt a ! node @ [(t, length (nxt a))] else nxt a ! v)"
  using assms by (simp add: grow_def nth_append)

lemma grow_edge:
  assumes "node < length (nxt a)" "v \<le> length (nxt a)" "map_of (nxt a ! node) t = None"
    "map_of (nxt (grow t node a) ! v) k = Some u"
  shows "v < length (nxt a) \<and>
     (map_of (nxt a ! v) k = Some u \<or> (v = node \<and> k = t \<and> u = length (nxt a)))"
proof -
  have nv: "v \<noteq> length (nxt a)"
    using assms(4) grow_nxt_nth[OF assms(1,2), of t] by auto
  show ?thesis
  proof (cases "v = node")
    case True
    have "map_of (nxt a ! node @ [(t, length (nxt a))]) k = Some u"
      using assms(4) grow_nxt_nth[OF assms(1,2), of t] nv True by simp
    then show ?thesis using True assms(1,3)
      by (auto simp: map_add_def split: option.splits if_splits)
  next
    case False
    then show ?thesis using assms(4) grow_nxt_nth[OF assms(1,2), of t] nv assms(2) by simp
  qed
qed

lemma ac_inv_grow:
  assumes inv: "ac_inv P a" and nd: "node < length (nxt a)" and nk: "map_of (nxt a ! node) t = None"
  shows "ac_inv (P(length (nxt a) := P node @ [t])) (grow t node a)"
proof -
  let ?n = "length (nxt a)"
  let ?P = "P(?n := P node @ [t])"
  have sz: "sizes_ok a" and ed: "edges_ok P a" and fl: "fails_ok P a" and ou: "outs_ok a"
    and p0: "P 0 = []"
    using inv by (simp_all add: ac_inv_def)
  have n0: "0 < ?n" using sz by (simp add: sizes_ok_def)
  have P0: "?P 0 = []" using p0 n0 by simp
  have S: "sizes_ok (grow t node a)"
    using sz n0 by (simp add: sizes_ok_def nth_append)
  have E: "edges_ok ?P (grow t node a)"
    unfolding edges_ok_def
  proof (intro allI impI)
    fix v k u
    assume v: "v < length (nxt (grow t node a))"
      and m: "map_of (nxt (grow t node a) ! v) k = Some u"
    have vle: "v \<le> ?n" using v by simp
    from grow_edge[OF nd vle nk m] have vn: "v < ?n"
      and c: "map_of (nxt a ! v) k = Some u \<or> (v = node \<and> k = t \<and> u = ?n)" by auto
    from c show "v < u \<and> u < length (nxt (grow t node a)) \<and> ?P u = ?P v @ [k]"
    proof
      assume "map_of (nxt a ! v) k = Some u"
      with ed vn have "v < u \<and> u < ?n \<and> P u = P v @ [k]" unfolding edges_ok_def by blast
      then show ?thesis using vn by simp
    next
      assume "v = node \<and> k = t \<and> u = ?n"
      then show ?thesis using nd by simp
    qed
  qed
  have F: "fails_ok ?P (grow t node a)"
    unfolding fails_ok_def
  proof (intro allI impI)
    fix v assume v: "v < length (nxt (grow t node a))" and v0: "v \<noteq> 0"
    show "?P v \<noteq> [] \<and> fail (grow t node a) ! v < length (nxt (grow t node a)) \<and>
          length (?P (fail (grow t node a) ! v)) < length (?P v)"
    proof (cases "v = ?n")
      case True
      have "fail (grow t node a) ! v = 0" using True sz by (simp add: sizes_ok_def nth_append)
      then show ?thesis using True P0 by simp
    next
      case False
      then have vn: "v < ?n" using v by simp
      with fl v0 have o: "P v \<noteq> [] \<and> fail a ! v < ?n \<and> length (P (fail a ! v)) < length (P v)"
        unfolding fails_ok_def by blast
      have "fail (grow t node a) ! v = fail a ! v" using vn sz by (simp add: sizes_ok_def nth_append)
      then show ?thesis using o vn by simp
    qed
  qed
  have O: "outs_ok (grow t node a)"
    unfolding outs_ok_def
  proof (intro allI impI)
    fix v pid assume v: "v < length (nxt (grow t node a))" and p: "pid \<in> set (out (grow t node a) ! v)"
    have "v < ?n" using v p sz by (cases "v = ?n") (simp_all add: sizes_ok_def nth_append)
    moreover then have "pid \<in> set (out a ! v)" using p sz by (simp add: sizes_ok_def nth_append)
    ultimately show "pid < length (phrases (grow t node a))" using ou unfolding outs_ok_def by simp
  qed
  show ?thesis unfolding ac_inv_def using P0 S E F O by blast
qed

lemma paths_ok_new: "paths_ok (\<lambda>_. []) new_TokenAC"
  by (simp add: paths_ok_def new_TokenAC_def)

lemma paths_ok_grow:
  assumes inv: "ac_inv P a" and po: "paths_ok P a"
    and nd: "node < length (nxt a)" and nk: "map_of (nxt a ! node) t = None"
  shows "paths_ok (P(length (nxt a) := P node @ [t])) (grow t node a)"
proof -
  let ?n = "length (nxt a)"
  let ?P = "P(?n := P node @ [t])"
  have inj: "\<And>u v. u < ?n \<Longrightarrow> v < ?n \<Longrightarrow> P u = P v \<Longrightarrow> u = v"
    using po unfolding paths_ok_def by blast
  have par: "\<And>u. u < ?n \<Longrightarrow> u \<noteq> 0 \<Longrightarrow> \<exists>v k. v < ?n \<and> map_of (nxt a ! v) k = Some u"
    using po unfolding paths_ok_def by blast
  have fl: "fails_ok P a" using inv by (simp add: ac_inv_def)
  have fresh: "P v \<noteq> P node @ [t]" if v: "v < ?n" for v
  proof
    assume e: "P v = P node @ [t]"
    have "P 0 = []" using inv by (simp add: ac_inv_def)
    then have v0: "v \<noteq> 0" using e by (cases "v = 0") simp_all
    from par[OF v v0] obtain p k where p: "p < ?n" and m: "map_of (nxt a ! p) k = Some v" by blast
    from ac_inv_edge[OF inv p m] have "P v = P p @ [k]" by simp
    with e have "P p = P node" "k = t" by auto
    with inj[OF p nd] have "p = node" by simp
    with m nk \<open>k = t\<close> show False by simp
  qed
  have I: "u = v" if "u < length (nxt (grow t node a))" "v < length (nxt (grow t node a))" "?P u = ?P v" for u v
  proof (cases "u = ?n")
    case True
    show ?thesis
    proof (cases "v = ?n")
      case True
      then show ?thesis using \<open>u = ?n\<close> by simp
    next
      case False
      then have "v < ?n" using that(2) by simp
      from fresh[OF this] that(3) True False show ?thesis by simp
    qed
  next
    case False
    then have un: "u < ?n" using that(1) by simp
    show ?thesis
    proof (cases "v = ?n")
      case True
      from fresh[OF un] that(3) True False show ?thesis by simp
    next
      case vf: False
      then have "v < ?n" using that(2) by simp
      from inj[OF un this] that(3) False vf show ?thesis by simp
    qed
  qed
  have Pr: "\<exists>v k. v < length (nxt (grow t node a)) \<and> map_of (nxt (grow t node a) ! v) k = Some u"
    if u: "u < length (nxt (grow t node a))" and u0: "u \<noteq> 0" for u
  proof (cases "u = ?n")
    case True
    have "nxt (grow t node a) ! node = nxt a ! node @ [(t, ?n)]"
      using grow_nxt_nth[OF nd, of node t] nd by simp
    then have "map_of (nxt (grow t node a) ! node) t = Some ?n"
      using nk by (simp add: map_add_def)
    then show ?thesis using True nd by (intro exI[of _ node] exI[of _ t]) simp
  next
    case False
    then have un: "u < ?n" using u by simp
    from par[OF un u0] obtain p k where p: "p < ?n" and m: "map_of (nxt a ! p) k = Some u" by blast
    have "map_of (nxt (grow t node a) ! p) k = Some u"
    proof (cases "p = node")
      case True
      then show ?thesis using grow_nxt_nth[OF nd, of p t] p m by (simp add: map_add_def)
    next
      case False
      then show ?thesis using grow_nxt_nth[OF nd, of p t] p m by simp
    qed
    then show ?thesis using p by (intro exI[of _ p] exI[of _ k]) simp
  qed
  show ?thesis unfolding paths_ok_def using I Pr by blast
qed

lemma grown_refl: "grown P a P a"
  by (simp add: grown_def)

lemma grown_trans:
  assumes "grown P a P1 a1" "grown P1 a1 P2 a2"
  shows "grown P a P2 a2"
  unfolding grown_def
proof (intro conjI allI impI)
  show "length (nxt a) \<le> length (nxt a2)" using assms by (simp add: grown_def)
  show "phrases a2 = phrases a" using assms by (simp add: grown_def)
  show "pLens a2 = pLens a" using assms by (simp add: grown_def)
next
  fix v assume v: "v < length (nxt a)"
  then have v1: "v < length (nxt a1)" using assms(1) by (simp add: grown_def)
  have "P1 v = P v \<and> out a1 ! v = out a ! v" using assms(1) v unfolding grown_def by blast
  moreover have "P2 v = P1 v \<and> out a2 ! v = out a1 ! v" using assms(2) v1 unfolding grown_def by blast
  ultimately show "P2 v = P v" "out a2 ! v = out a ! v" by simp_all
next
  fix v assume v: "length (nxt a) \<le> v" "v < length (nxt a2)"
  show "out a2 ! v = []"
  proof (cases "v < length (nxt a1)")
    case True
    then have "out a1 ! v = []" using assms(1) v(1) unfolding grown_def by blast
    moreover have "out a2 ! v = out a1 ! v" using assms(2) True unfolding grown_def by blast
    ultimately show ?thesis by simp
  next
    case False
    then show ?thesis using assms(2) v(2) unfolding grown_def by (simp add: not_less)
  qed
qed

lemma grown_grow:
  assumes "sizes_ok a"
  shows "grown P a (P(length (nxt a) := x)) (grow t node a)"
  using assms by (auto simp: grown_def sizes_ok_def nth_append)


lemma walk_inv:
  assumes "ac_inv P a" "paths_ok P a" "node < length (nxt a)"
  shows "\<exists>a1 node1 P1. foldM addTokens_step ts (a, node) = Some (a1, node1) \<and>
     ac_inv P1 a1 \<and> paths_ok P1 a1 \<and> node1 < length (nxt a1) \<and> P1 node1 = P node @ ts \<and>
     grown P a P1 a1 \<and> node \<le> node1 \<and> (node1 < length (nxt a) \<longrightarrow> a1 = a)"
  using assms
proof (induction ts arbitrary: a node P)
  case Nil
  then show ?case using grown_refl[of P a] by auto
next
  case (Cons t ts)
  show ?case
  proof (cases "map_of (nxt a ! node) t")
    case (Some child)
    have st: "addTokens_step t (a, node) = Some (a, child)"
      using addTokens_step_old[OF Cons.prems(3) Some] .
    from ac_inv_edge[OF Cons.prems(1,3) Some]
    have c: "node < child" "child < length (nxt a)" "P child = P node @ [t]" by simp_all
    from Cons.IH[OF Cons.prems(1,2) c(2)] obtain a1 node1 P1 where
      h: "foldM addTokens_step ts (a, child) = Some (a1, node1)" "ac_inv P1 a1" "paths_ok P1 a1"
         "node1 < length (nxt a1)" "P1 node1 = P child @ ts" "grown P a P1 a1" "child \<le> node1"
         "node1 < length (nxt a) \<longrightarrow> a1 = a"
      by blast
    have "foldM addTokens_step (t # ts) (a, node) = Some (a1, node1)"
      using st h(1) by simp
    moreover have "P1 node1 = P node @ t # ts" using h(5) c(3) by simp
    moreover have "node \<le> node1" using c(1) h(7) by simp
    ultimately show ?thesis using h(2,3,4,6,8) by blast
  next
    case None
    let ?n = "length (nxt a)"
    let ?P = "P(?n := P node @ [t])"
    let ?a = "grow t node a"
    have st: "addTokens_step t (a, node) = Some (?a, ?n)"
      using addTokens_step_new[OF Cons.prems(3) None] .
    have i1: "ac_inv ?P ?a" using ac_inv_grow[OF Cons.prems(1,3) None] .
    have i2: "paths_ok ?P ?a" using paths_ok_grow[OF Cons.prems(1,2,3) None] .
    have i3: "?n < length (nxt ?a)" by simp
    from Cons.IH[OF i1 i2 i3] obtain a1 node1 P1 where
      h: "foldM addTokens_step ts (?a, ?n) = Some (a1, node1)" "ac_inv P1 a1" "paths_ok P1 a1"
         "node1 < length (nxt a1)" "P1 node1 = ?P ?n @ ts" "grown ?P ?a P1 a1" "?n \<le> node1"
      by blast
    have g: "grown P a P1 a1"
      using grown_trans[OF grown_grow[OF ac_inv_sizes[OF Cons.prems(1)]] h(6)] .
    have "foldM addTokens_step (t # ts) (a, node) = Some (a1, node1)"
      using st h(1) by simp
    moreover have "P1 node1 = P node @ t # ts" using h(5) by simp
    moreover have "node \<le> node1" using Cons.prems(3) h(7) by simp
    moreover have "node1 < length (nxt a) \<longrightarrow> a1 = a" using h(7) by simp
    ultimately show ?thesis using h(2,3,4) g by blast
  qed
qed

lemma addTokens_unfold:
  assumes "ts \<noteq> []" "foldM addTokens_step ts (a, 0) = Some (a1, node)" "node < length (out a1)"
  shows "addTokens ts a =
     (if list_ex (\<lambda>pid. pid < length (phrases a1) \<and> phrases a1 ! pid = join [SPACE] ts) (out a1 ! node)
      then Some a1 else Some (register ts node a1))"
  using assms by (simp add: addTokens_def register_def Let_def)

lemma register_fields [simp]:
  "nxt (register ts node a) = nxt a"
  "fail (register ts node a) = fail a"
  "length (out (register ts node a)) = length (out a)"
  "phrases (register ts node a) = phrases a @ [join [SPACE] ts]"
  "pLens (register ts node a) = pLens a @ [length ts]"
  by (simp_all add: register_def)

lemma register_out:
  assumes "node < length (out a)" "v < length (out a)"
  shows "out (register ts node a) ! v =
     (if v = node then out a ! node @ [length (phrases a)] else out a ! v)"
  using assms by (simp add: register_def)

lemma sizes_okD:
  assumes "sizes_ok a"
  shows "0 < length (nxt a)" "length (fail a) = length (nxt a)" "length (out a) = length (nxt a)"
    "length (pLens a) = length (phrases a)" "fail a ! 0 = 0"
  using assms unfolding sizes_ok_def by blast+

lemma ac_inv_register:
  assumes inv: "ac_inv P a" and nd: "node < length (nxt a)"
  shows "ac_inv P (register ts node a)"
proof -
  have sz: "sizes_ok a" and ed: "edges_ok P a" and fl: "fails_ok P a" and ou: "outs_ok a"
    and p0: "P 0 = []"
    using inv by (simp_all add: ac_inv_def)
  have lo: "length (out a) = length (nxt a)" using sizes_okD[OF sz] by simp
  have S: "sizes_ok (register ts node a)"
    unfolding sizes_ok_def using sizes_okD[OF sz] by simp
  have "edges_ok P (register ts node a) = edges_ok P a" by (simp add: edges_ok_def)
  then have E: "edges_ok P (register ts node a)" using ed by blast
  have "fails_ok P (register ts node a) = fails_ok P a" by (simp add: fails_ok_def)
  then have F: "fails_ok P (register ts node a)" using fl by blast
  have O: "outs_ok (register ts node a)"
    unfolding outs_ok_def
  proof (intro allI impI)
    fix v pid assume v: "v < length (nxt (register ts node a))"
      and p: "pid \<in> set (out (register ts node a) ! v)"
    have vn: "v < length (nxt a)" using v by simp
    have "pid \<in> set (out a ! v) \<or> pid = length (phrases a)"
      using p register_out[of node a v ts] nd vn lo by (auto split: if_splits)
    moreover have "pid \<in> set (out a ! v) \<Longrightarrow> pid < length (phrases a)"
      using ou vn unfolding outs_ok_def by blast
    ultimately show "pid < length (phrases (register ts node a))" by auto
  qed
  show ?thesis unfolding ac_inv_def using p0 S E F O by blast
qed

lemma paths_ok_register: "paths_ok P (register ts node a) = paths_ok P a"
  by (simp add: paths_ok_def)

lemma store_ok_grown:
  assumes st: "store_ok ins P a" and g: "grown P a P1 a1"
  shows "store_ok ins P1 a1"
proof -
  have le: "length (nxt a) \<le> length (nxt a1)" and ph: "phrases a1 = phrases a"
    and pl: "pLens a1 = pLens a"
    and old: "\<And>v. v < length (nxt a) \<Longrightarrow> P1 v = P v \<and> out a1 ! v = out a ! v"
    and new: "\<And>v. length (nxt a) \<le> v \<Longrightarrow> v < length (nxt a1) \<Longrightarrow> out a1 ! v = []"
    using g unfolding grown_def by blast+
  have s1: "length (phrases a) = length ins" "distinct ins" "[] \<notin> set ins"
    using st by (simp_all add: store_ok_def)
  have s2: "\<And>i. i < length ins \<Longrightarrow> phrases a ! i = join [SPACE] (ins ! i) \<and>
       pLens a ! i = length (ins ! i) \<and>
       (\<exists>v. v < length (nxt a) \<and> P v = ins ! i \<and> out a ! v = [i])"
    using st unfolding store_ok_def by blast
  have s3: "\<And>v. v < length (nxt a) \<Longrightarrow> out a ! v \<noteq> [] \<Longrightarrow> P v \<in> set ins"
    using st unfolding store_ok_def by blast
  show ?thesis
    unfolding store_ok_def
  proof (intro conjI allI impI)
    show "length (phrases a1) = length ins" using s1 ph by simp
    show "distinct ins" "[] \<notin> set ins" using s1 by simp_all
  next
    fix i assume i: "i < length ins"
    show "phrases a1 ! i = join [SPACE] (ins ! i)" using s2[OF i] ph by simp
    show "pLens a1 ! i = length (ins ! i)" using s2[OF i] pl by simp
    from s2[OF i] obtain v where v: "v < length (nxt a)" "P v = ins ! i" "out a ! v = [i]" by blast
    have "v < length (nxt a1) \<and> P1 v = ins ! i \<and> out a1 ! v = [i]"
      using v old[OF v(1)] le by simp
    then show "\<exists>v<length (nxt a1). P1 v = ins ! i \<and> out a1 ! v = [i]" by blast
  next
    fix v assume v: "v < length (nxt a1)" and o: "out a1 ! v \<noteq> []"
    have vn: "v < length (nxt a)" using new[of v] v o by (cases "v < length (nxt a)") simp_all
    then show "P1 v \<in> set ins" using s3[OF vn] old[OF vn] o by simp
  qed
qed


lemma store_okD:
  assumes "store_ok ins P a"
  shows "length (phrases a) = length ins" "distinct ins" "[] \<notin> set ins"
    "\<And>i. i < length ins \<Longrightarrow> phrases a ! i = join [SPACE] (ins ! i)"
    "\<And>i. i < length ins \<Longrightarrow> pLens a ! i = length (ins ! i)"
    "\<And>i. i < length ins \<Longrightarrow> \<exists>v. v < length (nxt a) \<and> P v = ins ! i \<and> out a ! v = [i]"
    "\<And>v. v < length (nxt a) \<Longrightarrow> out a ! v \<noteq> [] \<Longrightarrow> P v \<in> set ins"
  using assms unfolding store_ok_def by blast+

lemma store_ok_register:
  assumes st: "store_ok ins P a" and sz: "sizes_ok a" and nd: "node < length (nxt a)"
    and e: "out a ! node = []" and pn: "P node = ts" and ne: "ts \<noteq> []" and ni: "ts \<notin> set ins"
  shows "store_ok (ins @ [ts]) P (register ts node a)"
proof -
  note s = store_okD[OF st]
  have lo: "length (out a) = length (nxt a)" and lp: "length (pLens a) = length (phrases a)"
    using sizes_okD[OF sz] by simp_all
  have ndo: "node < length (out a)" using nd lo by simp
  show ?thesis
    unfolding store_ok_def
  proof (intro conjI allI impI)
    show "length (phrases (register ts node a)) = length (ins @ [ts])" using s(1) by simp
    show "distinct (ins @ [ts])" using s(2) ni by simp
    show "[] \<notin> set (ins @ [ts])" using s(3) ne by auto
  next
    fix i assume i: "i < length (ins @ [ts])"
    show "phrases (register ts node a) ! i = join [SPACE] ((ins @ [ts]) ! i)"
      using s(1) s(4)[of i] i by (cases "i < length ins") (simp_all add: nth_append)
    show "pLens (register ts node a) ! i = length ((ins @ [ts]) ! i)"
      using s(1) lp s(5)[of i] i by (cases "i < length ins") (simp_all add: nth_append)
    show "\<exists>v<length (nxt (register ts node a)).
            P v = (ins @ [ts]) ! i \<and> out (register ts node a) ! v = [i]"
    proof (cases "i < length ins")
      case True
      from s(6)[OF True] obtain v where v: "v < length (nxt a)" "P v = ins ! i" "out a ! v = [i]"
        by blast
      have "v \<noteq> node" using v(3) e by auto
      then have "out (register ts node a) ! v = [i]"
        using register_out[OF ndo, of v ts] v(1,3) lo by simp
      then show ?thesis using v(1,2) True by (intro exI[of _ v]) (simp add: nth_append)
    next
      case False
      then have il: "i = length ins" using i by simp
      have "out (register ts node a) ! node = [i]"
        using register_out[OF ndo ndo, of ts] e s(1) il by simp
      then show ?thesis using nd pn il by (intro exI[of _ node]) simp
    qed
  next
    fix v assume v: "v < length (nxt (register ts node a))"
      and o: "out (register ts node a) ! v \<noteq> []"
    have vn: "v < length (nxt a)" using v by simp
    show "P v \<in> set (ins @ [ts])"
    proof (cases "v = node")
      case True
      then show ?thesis using pn by simp
    next
      case False
      then have "out a ! v \<noteq> []" using o register_out[OF ndo, of v ts] vn lo by simp
      from s(7)[OF vn this] show ?thesis by simp
    qed
  qed
qed

lemma addTokens_inv:
  assumes inv: "ac_inv P a" and po: "paths_ok P a" and st: "store_ok ins P a"
  shows "\<exists>a' P'. addTokens ts a = Some a' \<and> ac_inv P' a' \<and> paths_ok P' a' \<and>
     store_ok (if ts = [] \<or> ts \<in> set ins then ins else ins @ [ts]) P' a' \<and>
     (ts \<in> set ins \<longrightarrow> a' = a)"
proof (cases "ts = []")
  case True
  have "addTokens ts a = Some a" using True by (simp add: addTokens_def)
  then show ?thesis using True inv po st by auto
next
  case ne: False
  have n0: "0 < length (nxt a)" using sizes_okD[OF ac_inv_sizes[OF inv]] by simp
  have p0: "P 0 = []" using inv by (simp add: ac_inv_def)
  from walk_inv[OF inv po n0, of ts] obtain a1 node1 P1 where
    w: "foldM addTokens_step ts (a, 0) = Some (a1, node1)" "ac_inv P1 a1" "paths_ok P1 a1"
       "node1 < length (nxt a1)" "P1 node1 = P 0 @ ts" "grown P a P1 a1"
       "node1 < length (nxt a) \<longrightarrow> a1 = a"
    by blast
  have pn: "P1 node1 = ts" using w(5) p0 by simp
  have st1: "store_ok ins P1 a1" using store_ok_grown[OF st w(6)] .
  note s1 = store_okD[OF st1]
  have sz1: "sizes_ok a1" using ac_inv_sizes[OF w(2)] .
  have ndo: "node1 < length (out a1)" using w(4) sizes_okD[OF sz1] by simp
  note unf = addTokens_unfold[OF ne w(1) ndo]
  show ?thesis
  proof (cases "ts \<in> set ins")
    case True
    then obtain i where i: "i < length ins" "ins ! i = ts" by (auto simp: in_set_conv_nth)
    from store_okD(6)[OF st i(1)] obtain v where
      v: "v < length (nxt a)" "P v = ts" "out a ! v = [i]" using i(2) by auto
    have g: "length (nxt a) \<le> length (nxt a1)" "P1 v = P v" "out a1 ! v = out a ! v"
      using w(6) v(1) unfolding grown_def by auto
    have "v < length (nxt a1)" using v(1) g(1) by simp
    moreover have "P1 v = P1 node1" using g(2) v(2) pn by simp
    ultimately have vn: "v = node1" using w(3,4) unfolding paths_ok_def by blast
    then have aa: "a1 = a" using w(7) v(1) by simp
    have "out a1 ! node1 = [i]" using g(3) v(3) vn by simp
    moreover have "i < length (phrases a1)" using s1(1) i(1) by simp
    moreover have "phrases a1 ! i = join [SPACE] ts" using s1(4)[OF i(1)] i(2) by simp
    ultimately have "addTokens ts a = Some a1" using unf by simp
    then show ?thesis using aa True inv po st by auto
  next
    case False
    have e: "out a1 ! node1 = []"
    proof (rule ccontr)
      assume "out a1 ! node1 \<noteq> []"
      from s1(7)[OF w(4) this] show False using pn False by simp
    qed
    have r: "addTokens ts a = Some (register ts node1 a1)" using unf e by simp
    have "ac_inv P1 (register ts node1 a1)" using ac_inv_register[OF w(2,4)] .
    moreover have "paths_ok P1 (register ts node1 a1)" using w(3) by (simp add: paths_ok_register)
    moreover have "store_ok (ins @ [ts]) P1 (register ts node1 a1)"
      using store_ok_register[OF st1 sz1 w(4) e pn ne False] .
    ultimately show ?thesis using r ne False by auto
  qed
qed

lemma store_ok_new: "store_ok [] (\<lambda>_. []) new_TokenAC"
  by (simp add: store_ok_def new_TokenAC_def)

lemma insert_all_inv:
  assumes "ac_inv P a" "paths_ok P a" "store_ok ins P a"
  shows "\<exists>a' P' ins'. foldM addTokens tss a = Some a' \<and> ac_inv P' a' \<and> paths_ok P' a' \<and>
     store_ok ins' P' a' \<and> set ins' = set ins \<union> (set tss - {[]})"
  using assms
proof (induction tss arbitrary: a P ins)
  case Nil
  then show ?case by auto
next
  case (Cons ts tss)
  let ?ins = "if ts = [] \<or> ts \<in> set ins then ins else ins @ [ts]"
  from addTokens_inv[OF Cons.prems, of ts] obtain a1 P1 where
    h: "addTokens ts a = Some a1" "ac_inv P1 a1" "paths_ok P1 a1" "store_ok ?ins P1 a1"
    by blast
  from Cons.IH[OF h(2,3,4)] obtain a' P' ins' where
    k: "foldM addTokens tss a1 = Some a'" "ac_inv P' a'" "paths_ok P' a'" "store_ok ins' P' a'"
       "set ins' = set ?ins \<union> (set tss - {[]})"
    by blast
  have "foldM addTokens (ts # tss) a = Some a'" using h(1) k(1) by simp
  moreover have "set ins' = set ins \<union> (set (ts # tss) - {[]})" using k(5) by auto
  ultimately show ?case using k(2,3,4) by blast
qed

lemma inserted_inv:
  "\<exists>a P ins. foldM addTokens tss new_TokenAC = Some a \<and> ac_inv P a \<and> paths_ok P a \<and>
     store_ok ins P a \<and> set ins = set tss - {[]}"
  using insert_all_inv[OF ac_inv_new paths_ok_new store_ok_new, of tss] by simp

lemma object_keys_set: "set (object_keys r) = fst ` set r"
  by (auto simp: object_keys_def Let_def)

lemma object_keys_defined: "k \<in> set (object_keys r) \<Longrightarrow> \<exists>u. map_of r k = Some u"
  using object_keys_set[of r] weak_map_of_SomeI[of k _ r] by fastforce

lemma ac_inv_set_fail:
  assumes inv: "ac_inv P a" and u: "u < length (nxt a)" "u \<noteq> 0"
    and w: "w < length (nxt a)" "length (P w) < length (P u)"
  shows "ac_inv P (a\<lparr>fail := (fail a)[u := w]\<rparr>)"
proof -
  let ?a = "a\<lparr>fail := (fail a)[u := w]\<rparr>"
  have sz: "sizes_ok a" and ed: "edges_ok P a" and fl: "fails_ok P a" and ou: "outs_ok a"
    and p0: "P 0 = []"
    using inv by (simp_all add: ac_inv_def)
  note z = sizes_okD[OF sz]
  have S: "sizes_ok ?a" unfolding sizes_ok_def using z u(2) by simp
  have "edges_ok P ?a = edges_ok P a" by (simp add: edges_ok_def)
  then have E: "edges_ok P ?a" using ed by blast
  have "outs_ok ?a = outs_ok a" by (simp add: outs_ok_def)
  then have O: "outs_ok ?a" using ou by blast
  have F: "fails_ok P ?a"
    unfolding fails_ok_def
  proof (intro allI impI)
    fix v assume v: "v < length (nxt ?a)" "v \<noteq> 0"
    have vn: "v < length (nxt a)" using v(1) by simp
    have o: "P v \<noteq> [] \<and> fail a ! v < length (nxt a) \<and> length (P (fail a ! v)) < length (P v)"
      using fl vn v(2) unfolding fails_ok_def by blast
    show "P v \<noteq> [] \<and> fail ?a ! v < length (nxt ?a) \<and> length (P (fail ?a ! v)) < length (P v)"
    proof (cases "v = u")
      case True
      have "fail ?a ! v = w" using True u(1) z(2) by simp
      then show ?thesis using o w True by simp
    next
      case False
      then have "fail ?a ! v = fail a ! v" by simp
      then show ?thesis using o by simp
    qed
  qed
  show ?thesis unfolding ac_inv_def using p0 S E F O by blast
qed

lemma ac_inv_merge_out:
  assumes inv: "ac_inv P a" and v: "v < length (nxt a)" and f: "f < length (nxt a)"
  shows "ac_inv P (a\<lparr>out := (out a)[v := out a ! v @ out a ! f]\<rparr>)"
proof -
  let ?a = "a\<lparr>out := (out a)[v := out a ! v @ out a ! f]\<rparr>"
  have sz: "sizes_ok a" and ed: "edges_ok P a" and fl: "fails_ok P a" and ou: "outs_ok a"
    and p0: "P 0 = []"
    using inv by (simp_all add: ac_inv_def)
  note z = sizes_okD[OF sz]
  have S: "sizes_ok ?a" unfolding sizes_ok_def using z by simp
  have "edges_ok P ?a = edges_ok P a" by (simp add: edges_ok_def)
  then have E: "edges_ok P ?a" using ed by blast
  have "fails_ok P ?a = fails_ok P a" by (simp add: fails_ok_def)
  then have F: "fails_ok P ?a" using fl by blast
  have O: "outs_ok ?a"
    unfolding outs_ok_def
  proof (intro allI impI)
    fix x pid assume x: "x < length (nxt ?a)" and p: "pid \<in> set (out ?a ! x)"
    have xn: "x < length (nxt a)" using x by simp
    have "pid \<in> set (out a ! x) \<or> pid \<in> set (out a ! f)"
      using p xn z(3) by (cases "x = v") auto
    then have "pid < length (phrases a)" using ou xn f unfolding outs_ok_def by blast
    then show "pid < length (phrases ?a)" by simp
  qed
  show ?thesis unfolding ac_inv_def using p0 S E F O by blast
qed


lemma build_root_step_ok:
  assumes inv: "ac_inv P a" and k: "map_of (nxt a ! 0) k = Some c"
  shows "\<exists>a'. build_root_step k (a, q) = Some (a', q @ [c]) \<and> ac_inv P a' \<and>
     nxt a' = nxt a \<and> out a' = out a \<and> phrases a' = phrases a \<and> pLens a' = pLens a \<and>
     0 < c \<and> c < length (nxt a)"
proof -
  note z = sizes_okD[OF ac_inv_sizes[OF inv]]
  have p0: "P 0 = []" using inv by (simp add: ac_inv_def)
  from ac_inv_edge[OF inv z(1) k] have c: "0 < c" "c < length (nxt a)" "P c = P 0 @ [k]" by simp_all
  have "length (P 0) < length (P c)" using c(3) p0 by simp
  from ac_inv_set_fail[OF inv c(2) _ z(1) this] c(1)
  have "ac_inv P (a\<lparr>fail := (fail a)[c := 0]\<rparr>)" by simp
  moreover have "build_root_step k (a, q) = Some (a\<lparr>fail := (fail a)[c := 0]\<rparr>, q @ [c])"
    using k c z(2) by (simp add: build_root_step_def)
  ultimately show ?thesis using c by (intro exI[of _ "a\<lparr>fail := (fail a)[c := 0]\<rparr>"]) simp
qed

lemma build_root_fold:
  assumes "ac_inv P a" "\<forall>k\<in>set ks. \<exists>c. map_of (nxt a ! 0) k = Some c"
  shows "\<exists>a' cs. foldM build_root_step ks (a, q) = Some (a', q @ cs) \<and> ac_inv P a' \<and>
     nxt a' = nxt a \<and> out a' = out a \<and> phrases a' = phrases a \<and> pLens a' = pLens a \<and>
     (\<forall>c\<in>set cs. 0 < c \<and> c < length (nxt a))"
  using assms
proof (induction ks arbitrary: a q)
  case Nil
  then show ?case by (intro exI[of _ a] exI[of _ "[]"]) simp
next
  case (Cons k ks)
  from Cons.prems(2) obtain c where c: "map_of (nxt a ! 0) k = Some c" by auto
  from build_root_step_ok[OF Cons.prems(1) c, of q] obtain a1 where
    h: "build_root_step k (a, q) = Some (a1, q @ [c])" "ac_inv P a1" "nxt a1 = nxt a"
       "out a1 = out a" "phrases a1 = phrases a" "pLens a1 = pLens a" "0 < c" "c < length (nxt a)"
    by blast
  have "\<forall>k\<in>set ks. \<exists>c. map_of (nxt a1 ! 0) k = Some c" using Cons.prems(2) h(3) by simp
  from Cons.IH[OF h(2) this, of "q @ [c]"] obtain a' cs where
    i: "foldM build_root_step ks (a1, q @ [c]) = Some (a', (q @ [c]) @ cs)" "ac_inv P a'"
       "nxt a' = nxt a1" "out a' = out a1" "phrases a' = phrases a1" "pLens a' = pLens a1"
       "\<forall>c\<in>set cs. 0 < c \<and> c < length (nxt a1)"
    by blast
  have "foldM build_root_step (k # ks) (a, q) = Some (a', q @ (c # cs))"
    using h(1) i(1) by simp
  moreover have "\<forall>x\<in>set (c # cs). 0 < x \<and> x < length (nxt a)" using h(3,7,8) i(7) by simp
  ultimately show ?case using i(2,3,4,5,6) h(3,4,5,6)
    by (intro exI[of _ a'] exI[of _ "c # cs"]) simp
qed

lemma build_child_step_ok:
  assumes inv: "ac_inv P a" and v: "v < length (nxt a)" "v \<noteq> 0"
    and k: "map_of (nxt a ! v) k = Some u"
  shows "\<exists>a'. build_child_step v k (a, q) = Some (a', q @ [u]) \<and> ac_inv P a' \<and>
     nxt a' = nxt a \<and> out a' = out a \<and> phrases a' = phrases a \<and> pLens a' = pLens a \<and>
     v < u \<and> u < length (nxt a)"
proof -
  note z = sizes_okD[OF ac_inv_sizes[OF inv]]
  have p0: "P 0 = []" using inv by (simp add: ac_inv_def)
  from ac_inv_edge[OF inv v(1) k] have u: "v < u" "u < length (nxt a)" "P u = P v @ [k]" by simp_all
  have fv: "fail a ! v < length (nxt a)" using ac_inv_fail[OF inv v(1)] .
  have fl: "length (P (fail a ! v)) < length (P v)" using ac_inv_fail_less[OF inv v] .
  from chase_total[OF inv fv, of k] obtain j where
    j: "chase a k (fail a ! v) = Some j" "j < length (nxt a)" "length (P j) \<le> length (P (fail a ! v))"
    by blast
  define w where "w = (case map_of (nxt a ! j) k of None \<Rightarrow> 0 | Some w \<Rightarrow> w)"
  have w: "w < length (nxt a) \<and> length (P w) < length (P u)"
  proof (cases "map_of (nxt a ! j) k")
    case None
    then show ?thesis using z(1) p0 u(3) by (simp add: w_def)
  next
    case (Some x)
    from ac_inv_edge[OF inv j(2) Some] have "x < length (nxt a)" "P x = P j @ [k]" by simp_all
    then show ?thesis using Some j(3) fl u(3) by (simp add: w_def)
  qed
  have u0: "u \<noteq> 0" using u(1) by simp
  have "ac_inv P (a\<lparr>fail := (fail a)[u := w]\<rparr>)"
    using ac_inv_set_fail[OF inv u(2) u0] w by blast
  moreover have "build_child_step v k (a, q) = Some (a\<lparr>fail := (fail a)[u := w]\<rparr>, q @ [u])"
    using k v(1) z(2) j(1,2) u(2) by (simp add: build_child_step_def w_def)
  ultimately show ?thesis using u by (intro exI[of _ "a\<lparr>fail := (fail a)[u := w]\<rparr>"]) simp
qed

lemma build_child_fold:
  assumes "ac_inv P a" "v < length (nxt a)" "v \<noteq> 0"
    "\<forall>k\<in>set ks. \<exists>c. map_of (nxt a ! v) k = Some c"
  shows "\<exists>a' cs. foldM (build_child_step v) ks (a, q) = Some (a', q @ cs) \<and> ac_inv P a' \<and>
     nxt a' = nxt a \<and> out a' = out a \<and> phrases a' = phrases a \<and> pLens a' = pLens a \<and>
     (\<forall>c\<in>set cs. v < c \<and> c < length (nxt a))"
  using assms
proof (induction ks arbitrary: a q)
  case Nil
  then show ?case by (intro exI[of _ a] exI[of _ "[]"]) simp
next
  case (Cons k ks)
  from Cons.prems(4) obtain c where c: "map_of (nxt a ! v) k = Some c" by auto
  from build_child_step_ok[OF Cons.prems(1,2,3) c, of q] obtain a1 where
    h: "build_child_step v k (a, q) = Some (a1, q @ [c])" "ac_inv P a1" "nxt a1 = nxt a"
       "out a1 = out a" "phrases a1 = phrases a" "pLens a1 = pLens a" "v < c" "c < length (nxt a)"
    by blast
  have v1: "v < length (nxt a1)" using Cons.prems(2) h(3) by simp
  have "\<forall>k\<in>set ks. \<exists>c. map_of (nxt a1 ! v) k = Some c" using Cons.prems(4) h(3) by simp
  from Cons.IH[OF h(2) v1 Cons.prems(3) this, of "q @ [c]"] obtain a' cs where
    i: "foldM (build_child_step v) ks (a1, q @ [c]) = Some (a', (q @ [c]) @ cs)" "ac_inv P a'"
       "nxt a' = nxt a1" "out a' = out a1" "phrases a' = phrases a1" "pLens a' = pLens a1"
       "\<forall>c\<in>set cs. v < c \<and> c < length (nxt a1)"
    by blast
  have "foldM (build_child_step v) (k # ks) (a, q) = Some (a', q @ (c # cs))"
    using h(1) i(1) by simp
  moreover have "\<forall>x\<in>set (c # cs). v < x \<and> x < length (nxt a)" using h(3,7,8) i(7) by simp
  ultimately show ?case using i(2,3,4,5,6) h(3,4,5,6)
    by (intro exI[of _ a'] exI[of _ "c # cs"]) simp
qed


lemma build_loop_total:
  assumes "\<forall>v\<in>set q. 0 < v \<and> v < n" "ac_inv P a" "length (nxt a) = n"
  shows "\<exists>a'. build_loop (a, q) = Some a' \<and> ac_inv P a' \<and>
     nxt a' = nxt a \<and> phrases a' = phrases a \<and> pLens a' = pLens a"
proof -
  define r where "r = {(u::nat, v). v < u \<and> u < n}"
  have "wf r" by (rule wf_subset[of "measure (\<lambda>u. n - u)"]) (auto simp: r_def)
  then have W: "wf (inv_image (mult1 r) mset)" by (intro wf_inv_image wf_mult1)
  show ?thesis using assms
  proof (induction q arbitrary: a rule: wf_induct_rule[OF W])
    case (1 q)
    show ?case
    proof (cases q)
      case Nil
      have "build_loop (a, q) = Some a" using Nil by (subst build_loop.simps) simp
      then show ?thesis using "1.prems"(2) by simp
    next
      case (Cons v q')
      have v: "0 < v" "v < length (nxt a)" using "1.prems"(1,3) Cons by simp_all
      have q': "\<forall>x\<in>set q'. 0 < x \<and> x < n" using "1.prems"(1) Cons by simp
      note z = sizes_okD[OF ac_inv_sizes[OF "1.prems"(2)]]
      have fv: "fail a ! v < length (nxt a)" using ac_inv_fail[OF "1.prems"(2) v(2)] .
      define a1 where "a1 = (if fail a ! v < length (out a) \<and> out a ! (fail a ! v) \<noteq> []
         then a\<lparr>out := (out a)[v := out a ! v @ out a ! (fail a ! v)]\<rparr> else a)"
      have i1: "ac_inv P a1"
        using ac_inv_merge_out[OF "1.prems"(2) v(2) fv] "1.prems"(2) by (simp add: a1_def)
      have n1: "nxt a1 = nxt a" "phrases a1 = phrases a" "pLens a1 = pLens a"
        by (simp_all add: a1_def)
      have v1: "v < length (nxt a1)" "v \<noteq> 0" using v n1 by simp_all
      have ks: "\<forall>k\<in>set (object_keys (nxt a1 ! v)). \<exists>c. map_of (nxt a1 ! v) k = Some c"
        using object_keys_defined by blast
      from build_child_fold[OF i1 v1 ks, of q'] obtain a2 cs where
        h: "foldM (build_child_step v) (object_keys (nxt a1 ! v)) (a1, q') = Some (a2, q' @ cs)"
           "ac_inv P a2" "nxt a2 = nxt a1" "phrases a2 = phrases a1" "pLens a2 = pLens a1"
           "\<forall>c\<in>set cs. v < c \<and> c < length (nxt a1)"
        by blast
      have "\<forall>b. b \<in># mset cs \<longrightarrow> (b, v) \<in> r"
        using h(6) n1(1) "1.prems"(3) by (simp add: r_def)
      then have "(mset q' + mset cs, add_mset v (mset q')) \<in> mult1 r"
        unfolding mult1_def by blast
      then have dec: "(q' @ cs, q) \<in> inv_image (mult1 r) mset" using Cons by simp
      have qs: "\<forall>x\<in>set (q' @ cs). 0 < x \<and> x < n"
        using q' h(6) n1(1) "1.prems"(3) by auto
      have l2: "length (nxt a2) = n" using h(3) n1(1) "1.prems"(3) by simp
      from "1.IH"[OF dec qs h(2) l2] obtain a' where
        k: "build_loop (a2, q' @ cs) = Some a'" "ac_inv P a'" "nxt a' = nxt a2"
           "phrases a' = phrases a2" "pLens a' = pLens a2"
        by blast
      have "build_loop (a, v # q') =
         Option.bind (foldM (build_child_step v) (object_keys (nxt a1 ! v)) (a1, q')) build_loop"
        using v z by (subst build_loop.simps) (simp add: a1_def Let_def)
      then have "build_loop (a, q) = Some a'" using h(1) k(1) Cons by simp
      then show ?thesis using k(2,3,4,5) h(3,4,5) n1 by simp
    qed
  qed
qed

lemma build_total:
  assumes inv: "ac_inv P a"
  shows "\<exists>a'. build a = Some a' \<and> ac_inv P a' \<and>
     nxt a' = nxt a \<and> phrases a' = phrases a \<and> pLens a' = pLens a"
proof -
  note z = sizes_okD[OF ac_inv_sizes[OF inv]]
  have ks: "\<forall>k\<in>set (object_keys (nxt a ! 0)). \<exists>c. map_of (nxt a ! 0) k = Some c"
    using object_keys_defined by blast
  from build_root_fold[OF inv ks, of "[]"] obtain a1 cs where
    h: "foldM build_root_step (object_keys (nxt a ! 0)) (a, []) = Some (a1, cs)" "ac_inv P a1"
       "nxt a1 = nxt a" "phrases a1 = phrases a" "pLens a1 = pLens a"
       "\<forall>c\<in>set cs. 0 < c \<and> c < length (nxt a)"
    by auto
  have l: "length (nxt a1) = length (nxt a)" using h(3) by simp
  from build_loop_total[OF h(6) h(2) l] obtain a' where
    k: "build_loop (a1, cs) = Some a'" "ac_inv P a'" "nxt a' = nxt a1"
       "phrases a' = phrases a1" "pLens a' = pLens a1"
    by blast
  have "nxt a \<noteq> []" using z(1) by auto
  then have "build a = Some a'" using h(1) k(1) by (simp add: build_def)
  then show ?thesis using k(2,3,4,5) h(3,4,5) by simp
qed

lemma built_from_inv:
  "\<exists>a P. built_from tss a \<and> ac_inv P a"
proof -
  from inserted_inv[of tss] obtain a0 P where
    h: "foldM addTokens tss new_TokenAC = Some a0" "ac_inv P a0" by blast
  from build_total[OF h(2)] obtain a where "build a0 = Some a" "ac_inv P a" by blast
  then show ?thesis using h(1) unfolding built_from_def by blast
qed

lemma built_from_ac_inv:
  assumes "built_from tss a"
  shows "\<exists>P. ac_inv P a"
proof -
  from assms obtain a0 where a0: "foldM addTokens tss new_TokenAC = Some a0" "build a0 = Some a"
    unfolding built_from_def by blast
  from inserted_inv[of tss] a0(1) obtain P where "ac_inv P a0" by auto
  from build_total[OF this] a0(2) show ?thesis by auto
qed

lemma outs_loop_total:
  assumes "length (pLens a) = length (phrases a)"
  shows "\<exists>b. outs_loop a i pids best = Some b"
  using assms by (induction pids arbitrary: best) (auto simp: Let_def)

lemma scan_loop_total:
  assumes inv: "ac_inv P a"
  shows "state < length (nxt a) \<Longrightarrow> \<exists>b. scan_loop a toks i state best = Some b"
proof (induction toks arbitrary: i state best)
  case Nil
  then show ?case by simp
next
  case (Cons tok toks)
  note z = sizes_okD[OF ac_inv_sizes[OF inv]]
  from chase_total[OF inv Cons.prems, of tok] obtain s where
    s: "chase a tok state = Some s" "s < length (nxt a)" by blast
  define state' where "state' = (case map_of (nxt a ! s) tok of None \<Rightarrow> 0 | Some ns \<Rightarrow> ns)"
  have st: "state' < length (nxt a)"
  proof (cases "map_of (nxt a ! s) tok")
    case None
    then show ?thesis using z(1) by (simp add: state'_def)
  next
    case (Some ns)
    from ac_inv_edge[OF inv s(2) Some] show ?thesis using Some by (simp add: state'_def)
  qed
  from outs_loop_total[OF z(4), of i "out a ! state'" best] obtain b1 where
    b1: "outs_loop a i (out a ! state') best = Some b1" by blast
  from Cons.IH[OF st, of "i + 1" b1] obtain b where
    b: "scan_loop a toks (i + 1) state' b1 = Some b" by blast
  have "scan_loop a (tok # toks) i state best = Some b"
    using s st z(3) b1 b by (simp add: state'_def[symmetric] Let_def)
  then show ?case by blast
qed

lemma findAll_total:
  assumes "ac_inv P a"
  shows "\<exists>r. findAll pf a toks = Some r"
proof -
  note z = sizes_okD[OF ac_inv_sizes[OF assms]]
  from scan_loop_total[OF assms z(1), of toks 0 "[]"] obtain b where
    "scan_loop a toks 0 0 [] = Some b" by blast
  then show ?thesis by (simp add: findAll_def Let_def)
qed

lemma new_builder_total:
  assumes "opt_acOverride opts = None"
  shows "\<exists>b a. new_SearchQueryBuilder pf opts = Some b \<and> ac b = a \<and>
     built_from (registered (tokenize_fn b) opts) a"
proof -
  define tk where "tk = (case opt_tokenize opts of Some f \<Rightarrow> f | None \<Rightarrow> defaultTokenize pf)"
  from built_from_inv[of "registered tk opts"] obtain a P where
    a: "built_from (registered tk opts) a" by blast
  then obtain a0 where a0: "foldM addTokens (registered tk opts) new_TokenAC = Some a0"
    "build a0 = Some a" unfolding built_from_def by blast
  show ?thesis
    using assms a a0 by (simp add: new_SearchQueryBuilder_def Let_def tk_def[symmetric])
qed

lemma prepare_total:
  assumes "ac_inv P (ac b)"
  shows "\<exists>r. prepare pf b s = Some r"
proof (cases "trim s = []")
  case True
  then show ?thesis by (simp add: prepare_def)
next
  case False
  obtain prot remainder where q: "analyse_quotes s = (prot, remainder)" by (cases "analyse_quotes s")
  from findAll_total[OF assms, of pf "clean_tokens b remainder"] obtain m where
    "findAll pf (ac b) (clean_tokens b remainder) = Some m" by blast
  then show ?thesis using False q by (simp add: prepare_def Let_def)
qed

lemma insert_all_exact:
  assumes "ac_inv P a" "paths_ok P a" "store_ok ins P a"
  shows "\<exists>a' P'. foldM addTokens tss a = Some a' \<and> ac_inv P' a' \<and> paths_ok P' a' \<and>
     store_ok (foldl set_add ins (filter (\<lambda>ts. ts \<noteq> []) tss)) P' a'"
  using assms
proof (induction tss arbitrary: a P ins)
  case Nil
  then show ?case by auto
next
  case (Cons ts tss)
  let ?ins = "if ts = [] \<or> ts \<in> set ins then ins else ins @ [ts]"
  from addTokens_inv[OF Cons.prems, of ts] obtain a1 P1 where
    h: "addTokens ts a = Some a1" "ac_inv P1 a1" "paths_ok P1 a1" "store_ok ?ins P1 a1"
    by blast
  from Cons.IH[OF h(2,3,4)] obtain a' P' where
    k: "foldM addTokens tss a1 = Some a'" "ac_inv P' a'" "paths_ok P' a'"
       "store_ok (foldl set_add ?ins (filter (\<lambda>ts. ts \<noteq> []) tss)) P' a'"
    by blast
  have "foldM addTokens (ts # tss) a = Some a'" using h(1) k(1) by simp
  moreover have "foldl set_add ins (filter (\<lambda>ts. ts \<noteq> []) (ts # tss))
      = foldl set_add ?ins (filter (\<lambda>ts. ts \<noteq> []) tss)"
    by (simp add: set_add_def)
  ultimately show ?case using k(2,3,4) by auto
qed

lemma store_ok_phrases:
  assumes "store_ok ins P a" "sizes_ok a"
  shows "phrases a = map (join [SPACE]) ins" "pLens a = map length ins"
proof -
  note s = store_okD[OF assms(1)]
  show "phrases a = map (join [SPACE]) ins"
    using s(1) s(4) by (intro nth_equalityI) simp_all
  have "length (pLens a) = length ins" using s(1) sizes_okD(4)[OF assms(2)] by simp
  then show "pLens a = map length ins"
    using s(5) by (intro nth_equalityI) simp_all
qed

lemma inserted_exact:
  "\<exists>a P. foldM addTokens tss new_TokenAC = Some a \<and> ac_inv P a \<and> paths_ok P a \<and>
     store_ok (uniq (filter (\<lambda>ts. ts \<noteq> []) tss)) P a"
  using insert_all_exact[OF ac_inv_new paths_ok_new store_ok_new, of tss] by (simp add: uniq_def)

lemma join_Cons: "xs \<noteq> [] \<Longrightarrow> join sep (x # xs) = x @ sep @ join sep xs"
  by (cases xs) simp_all

lemma split_first:
  "c \<notin> set x \<Longrightarrow> c \<notin> set y \<Longrightarrow> x @ c # u = y @ c # v \<Longrightarrow> x = y \<and> u = v"
proof (induction x arbitrary: y)
  case Nil
  then show ?case by (cases y) auto
next
  case (Cons a x)
  then show ?case by (cases y) auto
qed

lemma join_inj:
  assumes "\<forall>t\<in>set ts. SPACE \<notin> set t" "\<forall>t\<in>set ts'. SPACE \<notin> set t" "ts \<noteq> []" "ts' \<noteq> []"
    "join [SPACE] ts = join [SPACE] ts'"
  shows "ts = ts'"
  using assms
proof (induction ts arbitrary: ts')
  case Nil
  then show ?case by simp
next
  case (Cons x xs)
  from Cons.prems(4) obtain y ys where ts': "ts' = y # ys" by (cases ts') auto
  have sx: "SPACE \<notin> set x" and sy: "SPACE \<notin> set y" using Cons.prems(1,2) ts' by auto
  show ?case
  proof (cases "xs = []")
    case True
    show ?thesis
    proof (cases "ys = []")
      case True
      then show ?thesis using \<open>xs = []\<close> Cons.prems(5) ts' by simp
    next
      case False
      have "x = y @ [SPACE] @ join [SPACE] ys"
        using Cons.prems(5) ts' True join_Cons[OF False, of "[SPACE]" y] by simp
      then have "SPACE \<in> set x" by simp
      then show ?thesis using sx by simp
    qed
  next
    case False
    show ?thesis
    proof (cases "ys = []")
      case True
      have "y = x @ [SPACE] @ join [SPACE] xs"
        using Cons.prems(5) ts' True join_Cons[OF False, of "[SPACE]" x] by simp
      then have "SPACE \<in> set y" by simp
      then show ?thesis using sy by simp
    next
      case ny: False
      have "x @ SPACE # join [SPACE] xs = y @ SPACE # join [SPACE] ys"
        using Cons.prems(5) ts' join_Cons[OF False, of "[SPACE]" x] join_Cons[OF ny, of "[SPACE]" y]
        by simp
      from split_first[OF sx sy this] have xy: "x = y" and j: "join [SPACE] xs = join [SPACE] ys"
        by simp_all
      have "xs = ys" using Cons.IH[of ys] Cons.prems(1,2) ts' False ny j by simp
      then show ?thesis using xy ts' by simp
    qed
  qed
qed

lemma phrase_store:
  "\<exists>a. foldM addTokens tss new_TokenAC = Some a \<and>
     phrases a = map (join [SPACE]) (uniq (filter (\<lambda>ts. ts \<noteq> []) tss)) \<and>
     pLens a = map length (uniq (filter (\<lambda>ts. ts \<noteq> []) tss)) \<and>
     (\<forall>ts\<in>set tss. addTokens ts a = Some a)"
proof -
  let ?ins = "uniq (filter (\<lambda>ts. ts \<noteq> []) tss)"
  from inserted_exact[of tss] obtain a P where
    h: "foldM addTokens tss new_TokenAC = Some a" "ac_inv P a" "paths_ok P a" "store_ok ?ins P a"
    by blast
  note p = store_ok_phrases[OF h(4) ac_inv_sizes[OF h(2)]]
  have "addTokens ts a = Some a" if "ts \<in> set tss" for ts
  proof (cases "ts = []")
    case True
    then show ?thesis by (simp add: addTokens_def)
  next
    case False
    then have "ts \<in> set ?ins" using that by (simp add: set_uniq)
    then show ?thesis using addTokens_inv[OF h(2,3,4), of ts] by auto
  qed
  then show ?thesis using h(1) p by blast
qed

lemma uniq_card: "length (uniq xs) = card (set xs)"
  using distinct_card[OF distinct_uniq[of xs]] by (simp add: set_uniq)

lemma nonempty_sequences: "set (filter (\<lambda>ts. ts \<noteq> []) tss) = set tss - {[]}"
  by auto

lemma join_inj_on:
  assumes "\<forall>ts\<in>S. ts \<noteq> [] \<and> (\<forall>t\<in>set ts. SPACE \<notin> set t)"
  shows "inj_on (join [SPACE]) S"
proof (rule inj_onI)
  fix x y assume "x \<in> S" "y \<in> S" "join [SPACE] x = join [SPACE] y"
  then show "x = y" using assms join_inj[of x y] by blast
qed


section \<open>The result of the matcher\<close>

lemma set_insort_cmp: "set (insort_cmp cmp x ys) = insert x (set ys)"
  by (induction ys) auto

lemma distinct_insort_cmp: "distinct ys \<Longrightarrow> x \<notin> set ys \<Longrightarrow> distinct (insort_cmp cmp x ys)"
  by (induction ys) (auto simp: set_insort_cmp)

lemma set_sort_cmp: "set (sort_cmp cmp xs) = set xs"
  by (induction xs) (simp_all add: sort_cmp_def set_insort_cmp)

lemma distinct_sort_cmp: "distinct xs \<Longrightarrow> distinct (sort_cmp cmp xs)"
proof (induction xs)
  case Nil then show ?case by (simp add: sort_cmp_def)
next
  case (Cons x xs)
  have "sort_cmp cmp (x # xs) = insort_cmp cmp x (sort_cmp cmp xs)" by (simp add: sort_cmp_def)
  then show ?case using Cons distinct_insort_cmp[of "sort_cmp cmp xs" x cmp]
    by (simp add: set_sort_cmp)
qed

lemma sorted_insort_cmp:
  assumes c: "consistent_compare cmp" and s: "sorted_wrt (\<lambda>a b. cmp a b \<le> 0) ys"
  shows "sorted_wrt (\<lambda>a b. cmp a b \<le> 0) (insort_cmp cmp x ys)"
  using s
proof (induction ys)
  case Nil then show ?case by simp
next
  case (Cons y ys)
  have tot: "\<And>a b. cmp a b \<le> 0 \<or> cmp b a \<le> 0"
    and tr: "\<And>a b c. cmp a b \<le> 0 \<Longrightarrow> cmp b c \<le> 0 \<Longrightarrow> cmp a c \<le> 0"
    using c unfolding consistent_compare_def by blast+
  show ?case
  proof (cases "cmp x y \<le> 0")
    case True
    have "\<forall>z\<in>set ys. cmp x z \<le> 0" using True Cons.prems tr by auto
    then show ?thesis using True Cons.prems by simp
  next
    case False
    then have yx: "cmp y x \<le> 0" using tot[of x y] by simp
    have "sorted_wrt (\<lambda>a b. cmp a b \<le> 0) (insort_cmp cmp x ys)" using Cons by simp
    then show ?thesis using False yx Cons.prems by (simp add: set_insort_cmp)
  qed
qed

lemma sorted_sort_cmp:
  assumes "consistent_compare cmp"
  shows "sorted_wrt (\<lambda>a b. cmp a b \<le> 0) (sort_cmp cmp xs)"
proof (induction xs)
  case Nil then show ?case by (simp add: sort_cmp_def)
next
  case (Cons x xs)
  have "sort_cmp cmp (x # xs) = insort_cmp cmp x (sort_cmp cmp xs)" by (simp add: sort_cmp_def)
  then show ?case using sorted_insort_cmp[OF assms Cons] by simp
qed

lemma match_order_le: "match_order pf x y \<le> 0 \<longleftrightarrow> longer_then_lex pf x y"
  by (auto simp: match_order_def longer_then_lex_def Let_def)

lemma match_order_consistent:
  assumes "consistent_compare (localeCompare pf)"
  shows "consistent_compare (match_order pf)"
proof -
  have tot: "\<And>a b. localeCompare pf a b \<le> 0 \<or> localeCompare pf b a \<le> 0"
    and tr: "\<And>a b c. localeCompare pf a b \<le> 0 \<Longrightarrow> localeCompare pf b c \<le> 0
               \<Longrightarrow> localeCompare pf a c \<le> 0"
    using assms unfolding consistent_compare_def by blast+
  have T: "match_order pf a b \<le> 0 \<or> match_order pf b a \<le> 0" for a b
    unfolding match_order_le longer_then_lex_def
    using tot[of a b] by (cases "length a = length b") auto
  have R: "match_order pf a c \<le> 0" if "match_order pf a b \<le> 0" "match_order pf b c \<le> 0" for a b c
    using that tr[of a b c] unfolding match_order_le longer_then_lex_def by auto
  show ?thesis unfolding consistent_compare_def using T R by blast
qed

lemma findAll_result:
  assumes "findAll pf a toks = Some r"
  shows "length (nxt a) = 1 \<and> r = [] \<or>
     (\<exists>b. scan_loop a toks 0 0 [] = Some b \<and>
        r = sort_cmp (match_order pf) (uniq (map (\<lambda>(k, v). snd v) b)))"
  using assms by (auto simp: findAll_def Let_def split: if_splits option.splits)

lemma findAll_distinct:
  assumes "findAll pf a toks = Some r"
  shows "distinct r"
  using findAll_result[OF assms] by (auto simp: distinct_sort_cmp distinct_uniq)

lemma findAll_sorted:
  assumes "findAll pf a toks = Some r" "consistent_compare (localeCompare pf)"
  shows "sorted_wrt (longer_then_lex pf) r"
proof -
  have "sorted_wrt (\<lambda>x y. match_order pf x y \<le> 0) r"
    using findAll_result[OF assms(1)] sorted_sort_cmp[OF match_order_consistent[OF assms(2)]]
    by auto
  then show ?thesis by (simp add: match_order_le)
qed

lemma findAll_total_built:
  assumes "built_from tss a"
  shows "\<exists>r. findAll pf a toks = Some r"
  using built_from_ac_inv[OF assms] findAll_total by blast

lemma built_made_from: "built_from tss (made_from tss)"
proof -
  from built_from_inv[of tss] obtain a where a: "built_from tss a" by blast
  then have "Option.bind (foldM addTokens tss new_TokenAC) build = Some a"
    unfolding built_from_def by auto
  then have "made_from tss = a" by (simp add: made_from_def)
  then show ?thesis using a by simp
qed

lemma rank_compare_total: "rank_compare k a b \<le> 0 \<or> rank_compare k b a \<le> 0"
  by (induction k a b rule: rank_compare.induct) auto

lemma rank_compare_le: "rank_compare k a b \<le> 0 \<longleftrightarrow> lex_le k a b"
  by (induction k a b rule: rank_compare.induct) auto

lemma lex_le_trans: "lex_le k a b \<Longrightarrow> lex_le k b c \<Longrightarrow> lex_le k a c"
proof (induction k a b arbitrary: c rule: lex_le.induct)
  case (1 k ys)
  then show ?case by simp
next
  case (2 k x xs)
  then show ?case by simp
next
  case (3 k x xs y ys)
  show ?case
  proof (cases c)
    case Nil
    then show ?thesis using 3(3) by simp
  next
    case (Cons z zs)
    show ?thesis
    proof (cases "k x < k y")
      case True
      then show ?thesis using 3(3) Cons by auto
    next
      case False
      then have xy: "k x = k y" and r: "lex_le k xs ys" using 3(2) by auto
      show ?thesis
      proof (cases "k y < k z")
        case True
        then show ?thesis using xy Cons by simp
      next
        case nz: False
        then have yz: "k y = k z" and r2: "lex_le k ys zs" using 3(3) Cons by auto
        have "lex_le k xs zs" using 3(1)[OF r r2] .
        then show ?thesis using xy yz Cons by simp
      qed
    qed
  qed
qed

lemma rank_compare_trans:
  "rank_compare k a b \<le> 0 \<Longrightarrow> rank_compare k b c \<le> 0 \<Longrightarrow> rank_compare k a c \<le> 0"
  unfolding rank_compare_le by (rule lex_le_trans)

lemma ascii_platform_compare: "localeCompare ascii_platform = rank_compare collation_rank"
  by (simp add: ascii_platform_def)

lemma ascii_platform_consistent: "consistent_compare (localeCompare ascii_platform)"
  unfolding consistent_compare_def ascii_platform_compare
  using rank_compare_total[of collation_rank] rank_compare_trans[of collation_rank]
  by blast

lemma outs_loop_keep:
  "outs_loop a i pids best = Some b \<Longrightarrow> b = foldl keep_best best (outs_candidates a i pids)"
proof (induction pids arbitrary: best)
  case Nil
  then show ?case by (simp add: outs_candidates_def)
next
  case (Cons pid pids)
  have oc: "outs_candidates a i (pid # pids) =
     (if pid < length (pLens a) \<and> 0 \<le> int i - int (pLens a ! pid) + 1
      then [(int i - int (pLens a ! pid) + 1, i, phrases a ! pid)] else [])
     @ outs_candidates a i pids"
    by (simp add: outs_candidates_def)
  show ?case
  proof (cases "pid < length (pLens a) \<and> 0 \<le> int i - int (pLens a ! pid) + 1")
    case False
    then have "outs_loop a i pids best = Some b" using Cons.prems by (auto simp: Let_def split: if_splits)
    moreover have "outs_candidates a i (pid # pids) = outs_candidates a i pids"
      using False by (auto simp: outs_candidates_def)
    ultimately show ?thesis using Cons.IH[of best] by simp
  next
    case True
    let ?c = "(int i - int (pLens a ! pid) + 1, i, phrases a ! pid)"
    have "outs_loop a i pids (keep_best best ?c) = Some b"
      using Cons.prems True
      by (cases "map_of best (int i - int (pLens a ! pid) + 1)")
         (auto simp: Let_def keep_best_def split: if_splits)
    moreover have "outs_candidates a i (pid # pids) = ?c # outs_candidates a i pids"
      using True by (simp add: outs_candidates_def)
    ultimately show ?thesis using Cons.IH[of "keep_best best ?c"] by simp
  qed
qed

lemma scan_loop_keep:
  "scan_loop a toks i state best = Some b \<Longrightarrow>
     \<exists>cs. scan_candidates a toks i state = Some cs \<and> b = foldl keep_best best cs"
proof (induction toks arbitrary: i state best)
  case Nil
  then show ?case by simp
next
  case (Cons tok toks)
  from Cons.prems obtain s where s: "chase a tok state = Some s" "s < length (nxt a)"
    by (auto split: option.splits if_splits)
  define state' where "state' = (case map_of (nxt a ! s) tok of None \<Rightarrow> 0 | Some ns \<Rightarrow> ns)"
  define here where "here = (if state' < length (out a) then outs_candidates a i (out a ! state') else [])"
  have eq: "scan_loop a (tok # toks) i state best =
     (case (if state' < length (out a) then outs_loop a i (out a ! state') best else Some best) of
        None \<Rightarrow> None | Some best' \<Rightarrow> scan_loop a toks (i + 1) state' best')"
    using s unfolding state'_def by (simp add: Let_def)
  from Cons.prems obtain b1 where
    b1: "(if state' < length (out a) then outs_loop a i (out a ! state') best else Some best) = Some b1"
    and r: "scan_loop a toks (i + 1) state' b1 = Some b"
    unfolding eq by (auto split: option.splits)
  have h: "b1 = foldl keep_best best here"
    using b1 outs_loop_keep[of a i "out a ! state'" best b1]
    by (auto simp: here_def split: if_splits)
  from Cons.IH[OF r] obtain cs where
    cs: "scan_candidates a toks (i + 1) state' = Some cs" "b = foldl keep_best b1 cs" by blast
  have "scan_candidates a (tok # toks) i state = Some (here @ cs)"
    using s cs(1) unfolding state'_def here_def by (simp add: Let_def)
  moreover have "b = foldl keep_best best (here @ cs)" using h cs(2) by simp
  ultimately show ?case by blast
qed


lemma best_set_absent: "k \<notin> fst ` set b \<Longrightarrow> best_set b k v = b @ [(k, v)]"
  by (simp add: best_set_def)

lemma best_set_present_keys: "k \<in> fst ` set b \<Longrightarrow> map fst (best_set b k v) = map fst b"
  by (auto simp: best_set_def)

lemma replace_mem:
  "(k', v') \<in> set (map (\<lambda>(k', v'). if k' = k then (k', v) else (k', v')) b) \<longleftrightarrow>
     (k' \<noteq> k \<and> (k', v') \<in> set b) \<or> (k' = k \<and> v' = v \<and> k \<in> fst ` set b)"
proof (induction b)
  case Nil
  then show ?case by simp
next
  case (Cons x b)
  obtain a w where x: "x = (a, w)" by (cases x)
  show ?case unfolding x using Cons by (cases "a = k") auto
qed

lemma best_set_present_mem:
  assumes "k \<in> fst ` set b"
  shows "(k', v') \<in> set (best_set b k v) \<longleftrightarrow>
     (k' \<noteq> k \<and> (k', v') \<in> set b) \<or> (k' = k \<and> v' = v)"
proof -
  have "best_set b k v = map (\<lambda>(k', v'). if k' = k then (k', v) else (k', v')) b"
    using assms by (simp add: best_set_def)
  then show ?thesis using assms replace_mem[of k' v' k v b] by simp
qed

lemma largest_per_startD:
  assumes "largest_per_start cs b"
  shows "distinct (map fst b)" "fst ` set b = fst ` set cs"
    "\<And>s e p. (s, e, p) \<in> set b \<Longrightarrow> (s, e, p) \<in> set cs"
    "\<And>s e p e' p'. (s, e, p) \<in> set b \<Longrightarrow> (s, e', p') \<in> set cs \<Longrightarrow> e' \<le> e"
  using assms unfolding largest_per_start_def by blast+

lemma largest_per_startI:
  assumes "distinct (map fst b)" "fst ` set b = fst ` set cs"
    "\<And>s e p. (s, e, p) \<in> set b \<Longrightarrow> (s, e, p) \<in> set cs"
    "\<And>s e p e' p'. (s, e, p) \<in> set b \<Longrightarrow> (s, e', p') \<in> set cs \<Longrightarrow> e' \<le> e"
  shows "largest_per_start cs b"
  unfolding largest_per_start_def using assms by blast

lemma largest_per_start_step:
  assumes L: "largest_per_start cs b"
  shows "largest_per_start (cs @ [c]) (keep_best b c)"
proof -
  obtain s e p where c: "c = (s, e, p)" by (cases c)
  note D = largest_per_startD[OF L]
  show ?thesis
  proof (cases "map_of b s")
    case None
    then have ns: "s \<notin> fst ` set b" by (simp add: map_of_eq_None_iff)
    have kb: "keep_best b (s, e, p) = b @ [(s, e, p)]"
      using None ns by (simp add: keep_best_def best_set_absent)
    have nc: "\<And>e' p'. (s, e', p') \<notin> set cs" using ns D(2) by force
    have nb: "\<And>e' p'. (s, e', p') \<notin> set b" using ns by force
    show ?thesis
      unfolding c kb
    proof (rule largest_per_startI)
      show "distinct (map fst (b @ [(s, e, p)]))" using D(1) ns by simp
      show "fst ` set (b @ [(s, e, p)]) = fst ` set (cs @ [(s, e, p)])" using D(2) by simp
    next
      fix s1 e1 p1 assume m: "(s1, e1, p1) \<in> set (b @ [(s, e, p)])"
      show "(s1, e1, p1) \<in> set (cs @ [(s, e, p)])" using m D(3) by auto
    next
      fix s1 e1 p1 e' p'
      assume m: "(s1, e1, p1) \<in> set (b @ [(s, e, p)])"
        and m': "(s1, e', p') \<in> set (cs @ [(s, e, p)])"
      show "e' \<le> e1"
      proof (cases "(s1, e1, p1) \<in> set b")
        case True
        then have "s1 \<noteq> s" using nb by auto
        then have "(s1, e', p') \<in> set cs" using m' by auto
        then show ?thesis using D(4)[OF True] by blast
      next
        case False
        then have e: "s1 = s" "e1 = e" using m by auto
        then have "(s1, e', p') = (s, e, p)" using m' nc by auto
        then show ?thesis using e by simp
      qed
    qed
  next
    case (Some prev)
    obtain e0 p0 where prev: "prev = (e0, p0)" by (cases prev)
    have inb: "(s, e0, p0) \<in> set b" using Some prev by (auto dest: map_of_SomeD)
    then have sk: "s \<in> fst ` set b" by force
    have uniq: "\<And>e1 p1. (s, e1, p1) \<in> set b \<Longrightarrow> e1 = e0"
      using D(1) inb by (meson eq_key_imp_eq_value prod.inject)
    show ?thesis
    proof (cases "e > e0")
      case True
      have kb: "keep_best b (s, e, p) = best_set b s (e, p)"
        using Some prev True by (simp add: keep_best_def)
      note M = best_set_present_mem[OF sk, of _ _ "(e, p)"]
      show ?thesis
        unfolding c kb
      proof (rule largest_per_startI)
        show "distinct (map fst (best_set b s (e, p)))"
          using D(1) best_set_present_keys[OF sk] by simp
        have "fst ` set (best_set b s (e, p)) = fst ` set b"
          using best_set_present_keys[OF sk, of "(e, p)"] by (metis list.set_map)
        then show "fst ` set (best_set b s (e, p)) = fst ` set (cs @ [(s, e, p)])"
          using D(2) sk by auto
      next
        fix s1 e1 p1 assume m: "(s1, e1, p1) \<in> set (best_set b s (e, p))"
        show "(s1, e1, p1) \<in> set (cs @ [(s, e, p)])" using m M D(3) by auto
      next
        fix s1 e1 p1 e' p'
        assume m: "(s1, e1, p1) \<in> set (best_set b s (e, p))"
          and m': "(s1, e', p') \<in> set (cs @ [(s, e, p)])"
        show "e' \<le> e1"
        proof (cases "s1 = s")
          case False
          then have "(s1, e1, p1) \<in> set b" "(s1, e', p') \<in> set cs" using m m' M by auto
          then show ?thesis using D(4) by blast
        next
          case s1: True
          then have e1: "e1 = e" using m M by auto
          show ?thesis
          proof (cases "(s1, e', p') \<in> set cs")
            case True
            then have "e' \<le> e0" using D(4)[OF inb] s1 by blast
            then show ?thesis using e1 \<open>e > e0\<close> by simp
          next
            case False
            then show ?thesis using m' e1 by auto
          qed
        qed
      qed
    next
      case False
      have kb: "keep_best b (s, e, p) = b" using Some prev False by (simp add: keep_best_def)
      show ?thesis
        unfolding c kb
      proof (rule largest_per_startI)
        show "distinct (map fst b)" using D(1) .
        show "fst ` set b = fst ` set (cs @ [(s, e, p)])" using D(2) sk by auto
      next
        fix s1 e1 p1 assume m: "(s1, e1, p1) \<in> set b"
        show "(s1, e1, p1) \<in> set (cs @ [(s, e, p)])" using m D(3) by auto
      next
        fix s1 e1 p1 e' p'
        assume m: "(s1, e1, p1) \<in> set b" and m': "(s1, e', p') \<in> set (cs @ [(s, e, p)])"
        show "e' \<le> e1"
        proof (cases "(s1, e', p') \<in> set cs")
          case True
          then show ?thesis using D(4)[OF m] by blast
        next
          case nin: False
          then have "s1 = s" "e' = e" using m' by auto
          then show ?thesis using uniq[of e1 p1] m False by simp
        qed
      qed
    qed
  qed
qed

lemma largest_per_start_foldl: "largest_per_start cs (foldl keep_best [] cs)"
proof (induction cs rule: rev_induct)
  case Nil
  then show ?case by (simp add: largest_per_start_def)
next
  case (snoc c cs)
  then show ?case using largest_per_start_step[of cs "foldl keep_best [] cs" c] by simp
qed

lemma scan_loop_largest:
  assumes "scan_loop a toks 0 0 [] = Some b"
  shows "\<exists>cs. scan_candidates a toks 0 0 = Some cs \<and> largest_per_start cs b"
  using scan_loop_keep[OF assms] largest_per_start_foldl by auto

lemma pre_clear_scan:
  "scan_loop pre_clear_automaton [js ''pre'', js ''clear'', js ''trade''] 0 0 []
     = Some [(0, 2, js ''pre clear trade'')]"
  "scan_candidates pre_clear_automaton [js ''pre'', js ''clear'', js ''trade''] 0 0
     = Some [(0, 1, js ''pre clear''), (0, 2, js ''pre clear trade'')]"
  "length (nxt pre_clear_automaton) = 4"
  by code_simp+

lemma pre_clear_findAll:
  "findAll pf pre_clear_automaton [js ''pre'', js ''clear'', js ''trade'']
     = Some [js ''pre clear trade'']"
  by (simp only: findAll_def pre_clear_scan) (simp add: uniq_def set_add_def sort_cmp_def)


section \<open>Facts about prepare\<close>

lemma build_new: "build new_TokenAC = Some new_TokenAC"
  by code_simp

lemma built_from_new: "built_from [] new_TokenAC"
  by (simp add: built_from_def build_new)

lemma prepare_total_built:
  assumes "built_from tss (ac b)"
  shows "\<exists>r. prepare pf b s = Some r"
  using built_from_ac_inv[OF assms] prepare_total by blast

lemma straight_loop_count:
  "straight_loop s i c =
     c + length (filter (\<lambda>i. s ! i = DQUOTE \<and> (i = 0 \<or> s ! (i - 1) \<noteq> BACKSLASH)) [i..<length s])"
proof (induction s i c rule: straight_loop.induct)
  case (1 s i c)
  show ?case
  proof (cases "i < length s")
    case True
    have a: "at s (int i) = Some DQUOTE \<longleftrightarrow> s ! i = DQUOTE" using True by (simp add: at_def)
    have b: "at s (int i - 1) \<noteq> Some BACKSLASH \<longleftrightarrow> (i = 0 \<or> s ! (i - 1) \<noteq> BACKSLASH)"
      using True by (cases i) (auto simp: at_def nat_diff_distrib')
    have u: "[i..<length s] = i # [Suc i..<length s]" using True by (simp add: upt_conv_Cons)
    show ?thesis
      using 1[OF True] True
      by (subst straight_loop.simps) (simp add: u a b)
  next
    case False
    then show ?thesis by (subst straight_loop.simps) simp
  qed
qed

lemma hasBalancedStraightQuotes_count:
  "hasBalancedStraightQuotes s \<longleftrightarrow> even (straight_count s)"
  by (simp add: hasBalancedStraightQuotes_def straight_loop_count straight_count_def even_iff_mod_2_eq_zero)

lemma quotesBalanced_counts:
  "quotesBalanced s \<longleftrightarrow> even (straight_count s) \<and> curly_opens s = curly_closes s"
  by (simp add: quotesBalanced_def hasBalancedStraightQuotes_count hasBalancedCurlyQuotes_def
      curly_opens_def curly_closes_def Let_def)

lemma quote_not_whitespace: "isQuoteChar c \<Longrightarrow> \<not> isWhiteSpace c"
  by (auto simp: isQuoteChar_def isWhiteSpace_def DQUOTE_def LDQUO_def RDQUO_def)

lemma straight_count_zero:
  assumes "DQUOTE \<notin> set s"
  shows "straight_count s = 0"
proof -
  have "\<And>i. i < length s \<Longrightarrow> s ! i \<noteq> DQUOTE" using assms nth_mem by metis
  then show ?thesis by (simp add: straight_count_def filter_empty_conv)
qed

lemma blank_balanced:
  assumes "trim s = []"
  shows "quotesBalanced s"
proof -
  have w: "\<forall>c\<in>set s. isWhiteSpace c" using assms by (simp add: trim_empty_iff)
  have "DQUOTE \<notin> set s" "LDQUO \<notin> set s" "RDQUO \<notin> set s"
    using w quote_not_whitespace by (auto simp: isQuoteChar_def)
  then have "filter (\<lambda>c. c = LDQUO) s = []" "filter (\<lambda>c. c = RDQUO) s = []"
    "straight_count s = 0"
    by (auto simp: filter_empty_conv straight_count_zero)
  then show ?thesis
    by (simp add: quotesBalanced_counts curly_opens_def curly_closes_def)
qed

lemma prepare_flag:
  assumes "prepare pf b s = Some r"
  shows "hadUnbalancedQuotes r \<longleftrightarrow> \<not> quotesBalanced s"
proof (cases "trim s = []")
  case True
  then show ?thesis using assms blank_balanced[OF True] by (auto simp: prepare_def)
next
  case False
  from prepare_nonempty[OF assms False] show ?thesis by auto
qed

lemma set_dropWhile_subset: "set (dropWhile P xs) \<subseteq> set xs"
  by (meson set_dropWhileD subsetI)

lemma set_trim: "set (trim s) \<subseteq> set s"
proof -
  have "set (trim s) = set (dropWhile isWhiteSpace (rev (dropWhile isWhiteSpace s)))"
    by (simp add: trim_def)
  also have "\<dots> \<subseteq> set (rev (dropWhile isWhiteSpace s))" by (rule set_dropWhile_subset)
  also have "\<dots> = set (dropWhile isWhiteSpace s)" by simp
  also have "\<dots> \<subseteq> set s" by (rule set_dropWhile_subset)
  finally show ?thesis .
qed

lemma filter_dropWhile: "filter (\<lambda>c. \<not> P c) (dropWhile P s) = filter (\<lambda>c. \<not> P c) s"
  by (induction s) auto

lemma filter_trim:
  "filter (\<lambda>c. \<not> isWhiteSpace c) (trim s) = filter (\<lambda>c. \<not> isWhiteSpace c) s"
proof -
  have "filter (\<lambda>c. \<not> isWhiteSpace c) (trim s)
      = rev (filter (\<lambda>c. \<not> isWhiteSpace c) (dropWhile isWhiteSpace (rev (dropWhile isWhiteSpace s))))"
    by (simp add: trim_def rev_filter)
  also have "\<dots> = rev (filter (\<lambda>c. \<not> isWhiteSpace c) (rev (dropWhile isWhiteSpace s)))"
    by (simp only: filter_dropWhile)
  also have "\<dots> = filter (\<lambda>c. \<not> isWhiteSpace c) (dropWhile isWhiteSpace s)"
    by (simp add: rev_filter)
  also have "\<dots> = filter (\<lambda>c. \<not> isWhiteSpace c) s" by (simp only: filter_dropWhile)
  finally show ?thesis .
qed

lemma SPACE_white: "isWhiteSpace SPACE"
  by (simp add: isWhiteSpace_def SPACE_def)

lemma SPACE_not_quote: "\<not> isQuoteChar SPACE"
  by (simp add: isQuoteChar_def SPACE_def DQUOTE_def LDQUO_def RDQUO_def)

lemma set_collapse_ws:
  "x \<in> set (collapse_ws s) \<Longrightarrow> x = SPACE \<or> (x \<in> set s \<and> \<not> isWhiteSpace x)"
proof (induction s rule: collapse_ws.induct)
  case 1
  then show ?case by simp
next
  case (2 c s)
  show ?case
  proof (cases "isWhiteSpace c")
    case True
    then have "x = SPACE \<or> x \<in> set (collapse_ws (dropWhile isWhiteSpace s))" using 2(3) by auto
    then show ?thesis using 2(1)[OF True] set_dropWhileD[of x isWhiteSpace s] by auto
  next
    case False
    then have "x = c \<or> x \<in> set (collapse_ws s)" using 2(3) by auto
    then show ?thesis using 2(2)[OF False] False by auto
  qed
qed

lemma filter_collapse_ws:
  "filter (\<lambda>c. \<not> isWhiteSpace c) (collapse_ws s) = filter (\<lambda>c. \<not> isWhiteSpace c) s"
proof (induction s rule: collapse_ws.induct)
  case 1
  then show ?case by simp
next
  case (2 c s)
  show ?case
  proof (cases "isWhiteSpace c")
    case True
    then show ?thesis using 2(1)[OF True] filter_dropWhile[of isWhiteSpace s] by (simp add: SPACE_white)
  next
    case False
    then show ?thesis using 2(2)[OF False] by simp
  qed
qed

lemma collapse_ws_head:
  "s \<noteq> [] \<Longrightarrow> \<not> isWhiteSpace (hd s) \<Longrightarrow> collapse_ws s \<noteq> [] \<and> hd (collapse_ws s) = hd s"
  by (cases s) auto

lemma successively_dropWhile:
  "successively P s \<Longrightarrow> successively P (dropWhile Q s)"
  using takeWhile_dropWhile_id[of Q s] successively_append_iff[of P "takeWhile Q s" "dropWhile Q s"]
  by simp

lemma collapse_ws_runs:
  "successively (\<lambda>x y. \<not> (isWhiteSpace x \<and> isWhiteSpace y)) (collapse_ws s)"
proof (induction s rule: collapse_ws.induct)
  case 1
  then show ?case by simp
next
  case (2 c s)
  show ?case
  proof (cases "isWhiteSpace c")
    case True
    define d where "d = dropWhile isWhiteSpace s"
    have ih: "successively (\<lambda>x y. \<not> (isWhiteSpace x \<and> isWhiteSpace y)) (collapse_ws d)"
      using 2(1)[OF True] by (simp add: d_def)
    have "collapse_ws d = [] \<or> \<not> isWhiteSpace (hd (collapse_ws d))"
    proof (cases "d = []")
      case True then show ?thesis by simp
    next
      case False
      have "\<not> isWhiteSpace (hd d)" using dropWhile_head[of isWhiteSpace s] False unfolding d_def by blast
      then show ?thesis using collapse_ws_head[OF False] by simp
    qed
    then show ?thesis using ih True by (auto simp: successively_Cons d_def)
  next
    case False
    then show ?thesis using 2(2)[OF False] by (simp add: successively_Cons)
  qed
qed

lemma runs_rev:
  "successively (\<lambda>x y. \<not> (isWhiteSpace x \<and> isWhiteSpace y)) (rev xs)
     \<longleftrightarrow> successively (\<lambda>x y. \<not> (isWhiteSpace x \<and> isWhiteSpace y)) xs"
  unfolding successively_rev by (rule successively_cong) auto

lemma trim_runs:
  assumes "successively (\<lambda>x y. \<not> (isWhiteSpace x \<and> isWhiteSpace y)) s"
  shows "successively (\<lambda>x y. \<not> (isWhiteSpace x \<and> isWhiteSpace y)) (trim s)"
proof -
  let ?P = "\<lambda>x y. \<not> (isWhiteSpace x \<and> isWhiteSpace y)"
  have 1: "successively ?P (dropWhile isWhiteSpace s)" using assms by (rule successively_dropWhile)
  then have "successively ?P (rev (dropWhile isWhiteSpace s))" by (simp only: runs_rev)
  then have "successively ?P (dropWhile isWhiteSpace (rev (dropWhile isWhiteSpace s)))"
    by (rule successively_dropWhile)
  then show ?thesis unfolding trim_def by (simp only: runs_rev)
qed

lemma stripStrayQuotes_props:
  "(\<forall>c\<in>set (stripStrayQuotes s). \<not> isQuoteChar c \<and> (isWhiteSpace c \<longrightarrow> c = SPACE))"
  "trim (stripStrayQuotes s) = stripStrayQuotes s"
  "filter (\<lambda>c. \<not> isWhiteSpace c) (stripStrayQuotes s)
     = filter (\<lambda>c. \<not> isWhiteSpace c \<and> \<not> isQuoteChar c) s"
  "successively (\<lambda>x y. \<not> (isWhiteSpace x \<and> isWhiteSpace y)) (stripStrayQuotes s)"
proof -
  show "\<forall>c\<in>set (stripStrayQuotes s). \<not> isQuoteChar c \<and> (isWhiteSpace c \<longrightarrow> c = SPACE)"
  proof
    fix c assume "c \<in> set (stripStrayQuotes s)"
    then have "c \<in> set (collapse_ws (quotes_to_space s))"
      using set_trim unfolding stripStrayQuotes_def by blast
    from set_collapse_ws[OF this] show "\<not> isQuoteChar c \<and> (isWhiteSpace c \<longrightarrow> c = SPACE)"
      by (auto simp: SPACE_not_quote quotes_to_space_def split: if_splits)
  qed
  show "trim (stripStrayQuotes s) = stripStrayQuotes s"
    by (simp add: stripStrayQuotes_def trim_idem)
  have "filter (\<lambda>c. \<not> isWhiteSpace c) (quotes_to_space s)
      = filter (\<lambda>c. \<not> isWhiteSpace c \<and> \<not> isQuoteChar c) s"
    by (induction s) (auto simp: quotes_to_space_def SPACE_white quote_not_whitespace)
  then show "filter (\<lambda>c. \<not> isWhiteSpace c) (stripStrayQuotes s)
     = filter (\<lambda>c. \<not> isWhiteSpace c \<and> \<not> isQuoteChar c) s"
    by (simp add: stripStrayQuotes_def filter_trim filter_collapse_ws)
  show "successively (\<lambda>x y. \<not> (isWhiteSpace x \<and> isWhiteSpace y)) (stripStrayQuotes s)"
    unfolding stripStrayQuotes_def by (intro trim_runs collapse_ws_runs)
qed

lemma new_default: "new_SearchQueryBuilder ascii_platform no_options = Some default_builder"
  by (simp add: new_SearchQueryBuilder_def no_options_def registered_def default_builder_def build_new)

lemma new_drop_all:
  "new_SearchQueryBuilder ascii_platform (no_options\<lparr>opt_wrap := Some empty_wrap\<rparr>) = Some drop_all_builder"
  by (simp add: new_SearchQueryBuilder_def no_options_def registered_def drop_all_builder_def build_new)

lemma built_default: "built_from [] (ac default_builder)"
  by (simp add: default_builder_def built_from_new)


section \<open>Quoted spans and the remainder\<close>

lemma find_close_bounds: "find_close input e j = Some f \<Longrightarrow> j \<le> f \<and> f < length input"
proof (induction input e j rule: find_close.induct)
  case (1 input endChar j)
  show ?case
  proof (cases "j < length input")
    case False
    then show ?thesis using 1(2) by (simp add: find_close.simps[of input endChar j])
  next
    case True
    show ?thesis
    proof (cases "at input (int j) = Some endChar \<and> at input (int j - 1) \<noteq> Some BACKSLASH")
      case t: True
      then show ?thesis using 1(2) True by (simp add: find_close.simps[of input endChar j])
    next
      case c: False
      have "find_close input endChar (j + 1) = Some f"
        using 1(2) True c by (auto simp: find_close.simps[of input endChar j] split: if_splits)
      from 1(1)[OF True c this] show ?thesis by simp
    qed
  qed
qed

lemma span_at_bounds: "span_at input i = Some f \<Longrightarrow> i < f \<and> f < length input"
proof -
  assume "span_at input i = Some f"
  then obtain e where "find_close input e (i + 1) = Some f"
    by (auto simp: span_at_def split: if_splits)
  from find_close_bounds[OF this] show ?thesis by simp
qed

lemma kept_from_span: "span_at input i = Some f \<Longrightarrow> kept_from input i = kept_from input (Suc f)"
  using span_at_bounds[of input i f]
  by (subst kept_from.simps) (auto simp: span_at_def Let_def split: if_splits)

lemma kept_from_plain:
  "i < length input \<Longrightarrow> span_at input i = None \<Longrightarrow> kept_from input i = i # kept_from input (Suc i)"
  by (subst kept_from.simps) (auto simp: span_at_def Let_def split: if_splits option.splits dest: find_close_bounds)

lemma kept_from_end: "\<not> i < length input \<Longrightarrow> kept_from input i = []"
  by (subst kept_from.simps) simp

lemma spans_from_span:
  "span_at input i = Some f \<Longrightarrow> spans_from input i = (i, f) # spans_from input (Suc f)"
  using span_at_bounds[of input i f]
  by (subst spans_from.simps) (auto simp: span_at_def Let_def split: if_splits)

lemma spans_from_plain:
  "i < length input \<Longrightarrow> span_at input i = None \<Longrightarrow> spans_from input i = spans_from input (Suc i)"
  by (subst spans_from.simps) (auto simp: span_at_def Let_def split: if_splits option.splits dest: find_close_bounds)

lemma spans_from_end: "\<not> i < length input \<Longrightarrow> spans_from input i = []"
  by (subst spans_from.simps) simp

lemma extract_loop_span:
  "span_at input i = Some f \<Longrightarrow>
   snd (extract_loop input i p r)
     = snd (extract_loop input (Suc f)
         (if trim (slice input (i + 1) f) \<noteq> [] then p @ [slice input (i + 1) f] else p) r)"
  using span_at_bounds[of input i f]
  by (subst extract_loop.simps) (auto simp: span_at_def Let_def split: if_splits)

lemma extract_loop_plain:
  "i < length input \<Longrightarrow> span_at input i = None \<Longrightarrow>
   extract_loop input i p r = extract_loop input (Suc i) p (r @ [input ! i])"
  by (subst extract_loop.simps) (auto simp: span_at_def Let_def split: if_splits option.splits dest: find_close_bounds)

lemma extract_loop_end: "\<not> i < length input \<Longrightarrow> extract_loop input i p r = (p, r)"
  by (subst extract_loop.simps) simp

lemma scan_induct [case_names stop plain span]:
  assumes "\<And>i. \<not> i < length input \<Longrightarrow> P i"
    and "\<And>i. i < length input \<Longrightarrow> span_at input i = None \<Longrightarrow> P (Suc i) \<Longrightarrow> P i"
    and "\<And>i f. span_at input i = Some f \<Longrightarrow> P (Suc f) \<Longrightarrow> P i"
  shows "P i"
proof (induct "length input - i" arbitrary: i rule: less_induct)
  case less
  show ?case
  proof (cases "i < length input")
    case False
    then show ?thesis by (rule assms(1))
  next
    case True
    show ?thesis
    proof (cases "span_at input i")
      case None
      have "length input - Suc i < length input - i" using True by simp
      then have "P (Suc i)" by (rule less)
      then show ?thesis using assms(2)[OF True None] by simp
    next
      case (Some f)
      have "length input - Suc f < length input - i" using span_at_bounds[OF Some] by arith
      then have "P (Suc f)" by (rule less)
      then show ?thesis using assms(3)[OF Some] by simp
    qed
  qed
qed

lemma extract_kept:
  "snd (extract_loop input i p r) = r @ map ((!) input) (kept_from input i)"
proof (induction i arbitrary: p r rule: scan_induct[of input])
  case (stop i)
  then show ?case by (simp add: extract_loop_end kept_from_end)
next
  case (plain i)
  then show ?case by (simp add: extract_loop_plain kept_from_plain)
next
  case (span i f)
  then show ?case by (simp add: extract_loop_span kept_from_span)
qed

lemma kept_bounds: "k \<in> set (kept_from input i) \<Longrightarrow> i \<le> k \<and> k < length input"
proof (induction i rule: scan_induct[of input])
  case (stop i)
  then show ?case by (simp add: kept_from_end)
next
  case (plain i)
  then show ?case by (auto simp: kept_from_plain)
next
  case (span i f)
  then show ?case using span_at_bounds[of input i f] by (auto simp: kept_from_span)
qed

lemma kept_split:
  "k \<in> set (kept_from input i) \<Longrightarrow> \<exists>u. kept_from input i = u @ k # kept_from input (Suc k)"
proof (induction i rule: scan_induct[of input])
  case (stop i)
  then show ?case by (simp add: kept_from_end)
next
  case (plain i)
  show ?case
  proof (cases "k = i")
    case True
    then show ?thesis using plain(1,2) by (simp add: kept_from_plain)
  next
    case False
    then have "k \<in> set (kept_from input (Suc i))" using plain by (simp add: kept_from_plain)
    from plain(3)[OF this] obtain u where "kept_from input (Suc i) = u @ k # kept_from input (Suc k)" by blast
    then have "kept_from input i = (i # u) @ k # kept_from input (Suc k)"
      using plain(1,2) by (simp add: kept_from_plain)
    then show ?thesis by blast
  qed
next
  case (span i f)
  then show ?case by (simp add: kept_from_span)
qed

lemma kept_head: "k \<in> set (kept_from input k) \<Longrightarrow> kept_from input k = k # kept_from input (Suc k)"
proof (cases "k < length input")
  case False
  assume "k \<in> set (kept_from input k)"
  then show ?thesis using False by (simp add: kept_from_end)
next
  case True
  assume k: "k \<in> set (kept_from input k)"
  show ?thesis
  proof (cases "span_at input k")
    case None
    then show ?thesis using True by (simp add: kept_from_plain)
  next
    case (Some f)
    then have "k \<in> set (kept_from input (Suc f))" using k by (simp add: kept_from_span)
    then have "Suc f \<le> k" using kept_bounds by blast
    then show ?thesis using span_at_bounds[OF Some] by simp
  qed
qed

lemma span_start: "(a, b) \<in> set (spans_from input i) \<Longrightarrow> i \<le> a \<and> span_at input a = Some b"
proof (induction i rule: scan_induct[of input])
  case (stop i)
  then show ?case by (simp add: spans_from_end)
next
  case (plain i)
  then show ?case by (auto simp: spans_from_plain)
next
  case (span i f)
  then show ?case using span_at_bounds[of input i f] by (auto simp: spans_from_span)
qed

lemma span_closing: "span_at input i = Some f \<Longrightarrow> input ! f = DQUOTE \<or> input ! f = RDQUO"
proof -
  have "find_close input e j = Some f \<Longrightarrow> input ! f = e" for e j
  proof (induction input e j rule: find_close.induct)
    case (1 input endChar j)
    show ?case
    proof (cases "j < length input")
      case False
      then show ?thesis using 1(2) by (simp add: find_close.simps[of input endChar j])
    next
      case True
      show ?thesis
      proof (cases "at input (int j) = Some endChar \<and> at input (int j - 1) \<noteq> Some BACKSLASH")
        case t: True
        then show ?thesis using 1(2) True by (auto simp: find_close.simps[of input endChar j] at_def split: if_splits)
      next
        case c: False
        have "find_close input endChar (j + 1) = Some f"
          using 1(2) True c by (auto simp: find_close.simps[of input endChar j] split: if_splits)
        from 1(1)[OF True c this] show ?thesis by simp
      qed
    qed
  qed
  then show "span_at input i = Some f \<Longrightarrow> input ! f = DQUOTE \<or> input ! f = RDQUO"
    by (auto simp: span_at_def split: if_splits)
qed

lemma span_pred_kept:
  assumes "(a, b) \<in> set (spans_from input i)" "i < a"
    and "input ! (a - 1) \<noteq> DQUOTE" "input ! (a - 1) \<noteq> RDQUO"
  shows "a - 1 \<in> set (kept_from input i)"
  using assms(1,2)
proof (induction i rule: scan_induct[of input])
  case (stop i)
  then show ?case by (simp add: spans_from_end)
next
  case (plain i)
  have m: "(a, b) \<in> set (spans_from input (Suc i))" using plain by (simp add: spans_from_plain)
  show ?case
  proof (cases "a = Suc i")
    case True
    then show ?thesis using plain(1,2) by (simp add: kept_from_plain)
  next
    case False
    then have "Suc i < a" using plain(5) by simp
    from plain(3)[OF m this] show ?thesis using plain(1,2) by (simp add: kept_from_plain)
  qed
next
  case (span i f)
  have "a \<noteq> i" using span(4) by simp
  then have m: "(a, b) \<in> set (spans_from input (Suc f))" using span(1,3) by (simp add: spans_from_span)
  then have le: "Suc f \<le> a" using span_start by blast
  have "a \<noteq> Suc f" using span_closing[OF span(1)] assms(3,4) by auto
  then have "Suc f < a" using le by simp
  from span(2)[OF m this] show ?case using span(1) by (simp add: kept_from_span)
qed


lemma kept_adjacent:
  assumes sp: "(a, b) \<in> set (spans_from input 0)" and a: "0 < a"
    and c1: "input ! (a - 1) \<noteq> DQUOTE" "input ! (a - 1) \<noteq> RDQUO"
    and b: "Suc b < length input"
    and c2: "input ! Suc b \<noteq> DQUOTE" "input ! Suc b \<noteq> LDQUO"
  shows "\<exists>ks ks'. kept_from input 0 = ks @ [a - 1, Suc b] @ ks'"
proof -
  have k: "a - 1 \<in> set (kept_from input 0)" using span_pred_kept[OF sp a c1] .
  from kept_split[OF k] obtain u where u: "kept_from input 0 = u @ (a - 1) # kept_from input a"
    using a by auto
  have s: "span_at input a = Some b" using span_start[OF sp] by simp
  have n: "span_at input (Suc b) = None" using c2 by (simp add: span_at_def)
  have "kept_from input a = Suc b # kept_from input (Suc (Suc b))"
    using kept_from_span[OF s] kept_from_plain[OF b n] by simp
  then have "kept_from input 0 = u @ [a - 1, Suc b] @ kept_from input (Suc (Suc b))"
    using u by simp
  then show ?thesis by blast
qed

lemma dropWhile_stop: "\<not> P c \<Longrightarrow> dropWhile P (xs @ c # ys) = dropWhile P xs @ c # ys"
  by (induction xs) auto

lemma trim_around:
  assumes "\<not> isWhiteSpace c" "\<not> isWhiteSpace d"
  shows "trim (u @ [c, d] @ v)
       = dropWhile isWhiteSpace u @ [c, d] @ rev (dropWhile isWhiteSpace (rev v))"
proof -
  have 1: "dropWhile isWhiteSpace (u @ [c, d] @ v) = dropWhile isWhiteSpace u @ c # d # v"
    using dropWhile_stop[of isWhiteSpace c u "d # v"] assms(1) by simp
  have 2: "rev (dropWhile isWhiteSpace u @ c # d # v) = rev v @ d # (c # rev (dropWhile isWhiteSpace u))"
    by simp
  have 3: "dropWhile isWhiteSpace (rev v @ d # (c # rev (dropWhile isWhiteSpace u)))
      = dropWhile isWhiteSpace (rev v) @ d # (c # rev (dropWhile isWhiteSpace u))"
    using dropWhile_stop[of isWhiteSpace d "rev v" "c # rev (dropWhile isWhiteSpace u)"] assms(2) by simp
  show ?thesis
    unfolding trim_def 1 2 3 by simp
qed

lemma remainder_kept:
  "snd (extractQuotedPhrasesBalanced input) = trim (map ((!) input) (kept_from input 0))"
proof -
  have "snd (extract_loop input 0 [] []) = map ((!) input) (kept_from input 0)"
    using extract_kept[of input 0 "[]" "[]"] by simp
  then show ?thesis by (cases "extract_loop input 0 [] []") (simp add: extractQuotedPhrasesBalanced_def)
qed

lemma alnum_not_quote: "isAlnum c \<Longrightarrow> c \<noteq> DQUOTE \<and> c \<noteq> LDQUO \<and> c \<noteq> RDQUO"
  by (auto simp: isAlnum_def DQUOTE_def LDQUO_def RDQUO_def)

lemma exec_spans_cover:
  assumes "off \<le> length s" "\<And>i j. span_matches s i j \<Longrightarrow> \<not> (i < off \<and> off < j)"
    and "span_matches s i j" "off \<le> i"
  shows "\<exists>a b. (a, b) \<in> set (exec_spans off (drop off s)) \<and> a \<le> i \<and> j \<le> b"
  using assms(1,2,4)
proof (induct "length s - off" arbitrary: off rule: less_induct)
  case less
  note B = less.prems(2)
  have ij: "i < j" "j \<le> length s" using assms(3) by (auto simp: span_matches_def)
  have lt: "off < length s" using less.prems(3) ij by simp
  have d: "drop off s = s ! off # drop (Suc off) s" using lt by (simp add: Cons_nth_drop_Suc)
  show ?case
  proof (cases "match_at (drop off s)")
    case None
    have ns: "\<And>j. \<not> span_matches s off j" using no_span_at[OF None] by blast
    have B': "\<And>i j. span_matches s i j \<Longrightarrow> \<not> (i < Suc off \<and> Suc off < j)"
    proof
      fix i j assume sp: "span_matches s i j" and c: "i < Suc off \<and> Suc off < j"
      show False
      proof (cases "i = off")
        case True then show ?thesis using sp ns by blast
      next
        case False then show ?thesis using B[OF sp] c by simp
      qed
    qed
    have "i \<noteq> off" using ns assms(3) by blast
    then have le: "Suc off \<le> i" using less.prems(3) by simp
    have m: "length s - Suc off < length s - off" using lt by simp
    have sl: "Suc off \<le> length s" using lt by simp
    have e: "exec_spans off (drop off s) = exec_spans (Suc off) (drop (Suc off) s)"
      using None unfolding d by simp
    from less.hyps[OF m sl B' le] show ?thesis unfolding e by blast
  next
    case (Some m)
    have mp: "0 < m" and ml: "off + m \<le> length s"
      using match_at_token[OF Some] by auto
    have within: "\<And>i j. span_matches s i j \<Longrightarrow> i < off + m \<Longrightarrow> off < j \<Longrightarrow> off \<le> i \<and> j \<le> off + m"
      using span_within[of s off m] B Some by blast
    have B': "\<And>i j. span_matches s i j \<Longrightarrow> \<not> (i < off + m \<and> off + m < j)"
    proof
      fix i j assume sp: "span_matches s i j" and c: "i < off + m \<and> off + m < j"
      then have "j \<le> off + m" using within[OF sp] mp by simp
      then show False using c by simp
    qed
    have e: "exec_spans off (drop off s) = (off, off + m) # exec_spans (off + m) (drop (off + m) s)"
    proof -
      have "drop m (s ! off # drop (Suc off) s) = drop (off + m) s"
        using d by (metis add.commute drop_drop)
      then show ?thesis using Some unfolding d by simp
    qed
    show ?thesis
    proof (cases "i < off + m")
      case True
      have "off < j" using ij less.prems(3) by simp
      then have "j \<le> off + m" using within[OF assms(3) True] by simp
      then show ?thesis unfolding e using less.prems(3) by auto
    next
      case False
      then have le: "off + m \<le> i" by simp
      have ms: "length s - (off + m) < length s - off" using lt mp by arith
      from less.hyps[OF ms ml B' le] show ?thesis unfolding e by auto
    qed
  qed
qed

lemma fused_token:
  assumes "isAlnum c" "isAlnum d"
  shows "\<exists>w\<in>set (exec_loop (u @ [c, d] @ v)). \<exists>x y. w = x @ [c, d] @ y"
proof -
  let ?n = "u @ [c, d] @ v"
  let ?k = "length u"
  have sl: "slice ?n ?k (?k + 2) = [c, d]" by (simp add: slice_def)
  have sp: "span_matches ?n ?k (?k + 2)"
    unfolding span_matches_def sl using assms by simp
  from exec_spans_cover[of 0 ?n ?k "?k + 2"] sp
  obtain a b where ab: "(a, b) \<in> set (exec_spans 0 ?n)" "a \<le> ?k" "?k + 2 \<le> b"
    by auto
  have "set (exec_spans 0 ?n) = {(i, j). maximal_match ?n i j}"
    using exec_spans_maximal[of 0 ?n] by simp
  then have "maximal_match ?n a b" using ab(1) by blast
  then have bl: "b \<le> length ?n" by (simp add: maximal_match_iff span_matches_def)
  have "exec_loop ?n = map (\<lambda>(i, j). slice ?n i j) (exec_spans 0 ?n)"
    using exec_loop_spans[of 0 ?n] by simp
  then have w: "slice ?n a b \<in> set (exec_loop ?n)" using ab(1) by force
  have "slice ?n a b = slice ?n a ?k @ slice ?n ?k (?k + 2) @ slice ?n (?k + 2) b"
    using slice_append[of a ?k b ?n] slice_append[of ?k "?k + 2" b ?n] ab by simp
  then have "slice ?n a b = slice ?n a ?k @ [c, d] @ slice ?n (?k + 2) b"
    unfolding sl .
  then show ?thesis using w by blast
qed


lemma ascii_lower_alnum: "isAlnum c \<Longrightarrow> isAlnum (ascii_lower c)"
  unfolding isAlnum_def ascii_lower_def by (auto simp: word_le_nat_alt unat_word_ariths)

section \<open>Normalization\<close>

lemma ascii_lower_idem: "ascii_lower (ascii_lower c) = ascii_lower c"
  unfolding ascii_lower_def by (auto simp: word_le_nat_alt unat_word_ariths)

lemma map_fixed: "(\<And>c. c \<in> set s \<Longrightarrow> f c = c) \<Longrightarrow> map f s = s"
  by (induction s) auto

section \<open>The claims\<close>

text \<open>
  C5. \<^verbatim>\<open>prepare\<close> reports \<open>hadUnbalancedQuotes = false\<close> exactly when the number of straight
  quotes not immediately preceded by a backslash is even and the curly opening marks are
  as many as the curly closing marks. From a balanced input, an input whose straight
  count is one more or one less, or whose curly opening (or closing) count is one more or
  one less with the other curly count unchanged, is reported unbalanced. \<^verbatim>\<open>prepare\<close>
  returns for every input when the automaton was built by the class.
\<close>

theorem prepare_quote_balance:
  "(prepare pf b s = Some r \<longrightarrow>
      (\<not> hadUnbalancedQuotes r \<longleftrightarrow> even (straight_count s) \<and> curly_opens s = curly_closes s)) \<and>
   (prepare pf b s = Some r \<longrightarrow> prepare pf b s' = Some r' \<longrightarrow> \<not> hadUnbalancedQuotes r \<longrightarrow>
      (straight_count s' = straight_count s + 1 \<or> straight_count s' + 1 = straight_count s) \<longrightarrow>
      hadUnbalancedQuotes r') \<and>
   (prepare pf b s = Some r \<longrightarrow> prepare pf b s' = Some r' \<longrightarrow> \<not> hadUnbalancedQuotes r \<longrightarrow>
      ((curly_opens s' = curly_opens s + 1 \<or> curly_opens s' + 1 = curly_opens s) \<and>
         curly_closes s' = curly_closes s) \<or>
      ((curly_closes s' = curly_closes s + 1 \<or> curly_closes s' + 1 = curly_closes s) \<and>
         curly_opens s' = curly_opens s) \<longrightarrow>
      hadUnbalancedQuotes r') \<and>
   (built_from tss (ac b) \<longrightarrow> (\<exists>r. prepare pf b s = Some r))"
proof (intro conjI impI)
  assume "prepare pf b s = Some r"
  then show "\<not> hadUnbalancedQuotes r \<longleftrightarrow> even (straight_count s) \<and> curly_opens s = curly_closes s"
    by (simp add: prepare_flag quotesBalanced_counts)
next
  assume a: "prepare pf b s = Some r" "prepare pf b s' = Some r'" "\<not> hadUnbalancedQuotes r"
    "straight_count s' = straight_count s + 1 \<or> straight_count s' + 1 = straight_count s"
  have "even (straight_count s)" using a(1,3) by (simp add: prepare_flag quotesBalanced_counts)
  then have "odd (straight_count s')" using a(4) by presburger
  then show "hadUnbalancedQuotes r'" using a(2) by (simp add: prepare_flag quotesBalanced_counts)
next
  assume a: "prepare pf b s = Some r" "prepare pf b s' = Some r'" "\<not> hadUnbalancedQuotes r"
    "((curly_opens s' = curly_opens s + 1 \<or> curly_opens s' + 1 = curly_opens s) \<and>
         curly_closes s' = curly_closes s) \<or>
      ((curly_closes s' = curly_closes s + 1 \<or> curly_closes s' + 1 = curly_closes s) \<and>
         curly_opens s' = curly_opens s)"
  have "curly_opens s = curly_closes s" using a(1,3) by (simp add: prepare_flag quotesBalanced_counts)
  then have "curly_opens s' \<noteq> curly_closes s'" using a(4) by auto
  then show "hadUnbalancedQuotes r'" using a(2) by (simp add: prepare_flag quotesBalanced_counts)
next
  assume "built_from tss (ac b)"
  then show "\<exists>r. prepare pf b s = Some r" by (rule prepare_total_built)
qed

theorem prepare_quote_balance_witness:
  "(\<exists>r r'. prepare ascii_platform default_builder (js ''say '' @ [DQUOTE] @ js ''hi'' @ [DQUOTE]) = Some r \<and>
      prepare ascii_platform default_builder (js ''say '' @ [DQUOTE] @ js ''hi'') = Some r' \<and>
      \<not> hadUnbalancedQuotes r \<and> hadUnbalancedQuotes r') \<and>
   straight_count (js ''say '' @ [DQUOTE] @ js ''hi'' @ [DQUOTE]) = 2 \<and>
   straight_count (js ''say '' @ [DQUOTE] @ js ''hi'') = 1"
proof -
  let ?s = "js ''say '' @ [DQUOTE] @ js ''hi'' @ [DQUOTE]"
  let ?s' = "js ''say '' @ [DQUOTE] @ js ''hi''"
  have b: "built_from [] (ac default_builder)"
    by (simp add: default_builder_def built_from_new)
  have c: "straight_count ?s = 2" "straight_count ?s' = 1" "curly_opens ?s = 0" "curly_closes ?s = 0"
    by code_simp+
  note t = prepare_quote_balance[of ascii_platform default_builder ?s _ ?s' _ "[]"]
  from t b obtain r where r: "prepare ascii_platform default_builder ?s = Some r" by blast
  from prepare_quote_balance[of ascii_platform default_builder ?s' _ ?s' _ "[]"] b
  obtain r' where r': "prepare ascii_platform default_builder ?s' = Some r'" by blast
  have 1: "\<not> hadUnbalancedQuotes r"
    using prepare_quote_balance[of ascii_platform default_builder ?s r ?s' r' "[]"] r c by simp
  have 2: "hadUnbalancedQuotes r'"
    using prepare_quote_balance[of ascii_platform default_builder ?s r ?s' r' "[]"] r r' 1 c by simp
  show ?thesis using r r' 1 2 c by blast
qed

text \<open>
  C8, as stated, fails when the configured wrap function returns the empty string: the
  builder made with the wrap \<open>empty_wrap\<close> answers the input \<open>a\<close> with an empty query
  string.
\<close>

theorem prepare_empty_query_counterexample:
  "new_SearchQueryBuilder ascii_platform (no_options\<lparr>opt_wrap := Some empty_wrap\<rparr>)
     = Some drop_all_builder \<and>
   map_option queryString (prepare ascii_platform drop_all_builder (js ''a'')) = Some [] \<and>
   trim (js ''a'') \<noteq> []"
proof -
  have "map_option queryString (prepare ascii_platform drop_all_builder (js ''a'')) = Some []"
    by code_simp
  moreover have "trim (js ''a'') \<noteq> []" by code_simp
  ultimately show ?thesis using new_drop_all by simp
qed

text \<open>
  C8, amended. When the wrap function never returns the empty string (the default wrap
  never does), \<^verbatim>\<open>prepare\<close> returns an empty query string if and only if the trimmed input
  is empty; in that case the three sequence fields, the cleaned text and the query string
  are empty and \<open>hadUnbalancedQuotes\<close> is false. \<^verbatim>\<open>prepare\<close> returns for every blank
  input, and for every input when the automaton was built by the class.
\<close>

theorem prepare_empty_query_iff:
  assumes "\<forall>q. wrap_fn b q \<noteq> []"
  shows "(prepare pf b s = Some r \<longrightarrow>
            (queryString r = [] \<longleftrightarrow> trim s = []) \<and>
            (trim s = [] \<longrightarrow>
               protectedPhrases r = [] \<and> cleanedTokens r = [] \<and> utteranceMatches r = [] \<and>
               cleanedText r = [] \<and> queryString r = [] \<and> \<not> hadUnbalancedQuotes r)) \<and>
         (trim s = [] \<or> built_from tss (ac b) \<longrightarrow> (\<exists>r. prepare pf b s = Some r)) \<and>
         (\<forall>q. defaultWrap q \<noteq> [])"
proof -
  have 1: "queryString r = [] \<longleftrightarrow> trim s = []" if p: "prepare pf b s = Some r"
  proof (cases "trim s = []")
    case True
    then show ?thesis using p by (auto simp: prepare_def)
  next
    case False
    from prepare_nonempty[OF p False] obtain matches where
      "queryString r = join (js '' OR '') (map (wrap_fn b)
         (uniq (clauses_of b s (trim (join [SPACE] (clean_tokens b (snd (analyse_quotes s)))))
            (fst (analyse_quotes s)) matches)))"
      by auto
    then show ?thesis using query_nonempty[OF assms] False by simp
  qed
  have 2: "protectedPhrases r = [] \<and> cleanedTokens r = [] \<and> utteranceMatches r = [] \<and>
        cleanedText r = [] \<and> queryString r = [] \<and> \<not> hadUnbalancedQuotes r"
    if "prepare pf b s = Some r" "trim s = []"
    using that by (auto simp: prepare_def)
  have 3: "\<exists>r. prepare pf b s = Some r" if "trim s = [] \<or> built_from tss (ac b)"
    using that prepare_empty[of s pf b] prepare_total_built[of tss b pf s] by blast
  have 4: "\<forall>q. defaultWrap q \<noteq> []" by (simp add: defaultWrap_nonempty)
  show ?thesis using 1 2 3 4 by blast
qed

theorem prepare_empty_query_iff_witness:
  "(\<exists>r. prepare ascii_platform default_builder (js ''   '') = Some r \<and> queryString r = [] \<and>
        \<not> hadUnbalancedQuotes r) \<and>
   (\<exists>r. prepare ascii_platform default_builder (js ''a'') = Some r \<and> queryString r \<noteq> [])"
proof -
  have w: "\<forall>q. wrap_fn default_builder q \<noteq> []"
    by (simp add: default_builder_def defaultWrap_nonempty)
  have t: "trim (js ''   '') = []" "trim (js ''a'') \<noteq> []" by code_simp+
  note a = prepare_empty_query_iff[OF w, of ascii_platform "js ''   ''" _ "[]"]
  note b = prepare_empty_query_iff[OF w, of ascii_platform "js ''a''" _ "[]"]
  from a t(1) obtain r where r: "prepare ascii_platform default_builder (js ''   '') = Some r"
    by blast
  from b built_default obtain r' where r': "prepare ascii_platform default_builder (js ''a'') = Some r'"
    by blast
  have "queryString r = [] \<and> \<not> hadUnbalancedQuotes r"
    using prepare_empty_query_iff[OF w, of ascii_platform "js ''   ''" r "[]"] r t(1) by simp
  moreover have "queryString r' \<noteq> []"
    using prepare_empty_query_iff[OF w, of ascii_platform "js ''a''" r' "[]"] r' t(2) by simp
  ultimately show ?thesis using r r' by blast
qed

text \<open>
  C9. \<^verbatim>\<open>quoteExact\<close> puts the phrase between double quotes with every backslash doubled
  and every double quote prefixed by a backslash; de-escaping gives the phrase back, so
  two phrases with the same escaped form are equal; and the query string of \<^verbatim>\<open>prepare\<close>
  is made of the escaped clause texts, escaped before the duplicates are dropped.
\<close>

theorem quoteExact_escapes:
  "quoteExact s = [DQUOTE] @ concat (map escape_unit s) @ [DQUOTE] \<and>
   dequote (quoteExact s) = Some s \<and>
   (quoteExact s = quoteExact t \<longrightarrow> s = t) \<and>
   (prepare pf b x = Some r \<longrightarrow> trim x \<noteq> [] \<longrightarrow>
      queryString r
        = join (js '' OR '') (map (wrap_fn b) (uniq (map quoteExact (raw_clauses b r))))) \<and>
   (built_from tss (ac b) \<longrightarrow> (\<exists>r. prepare pf b x = Some r))"
  using quoteExact_shape[of s] dequote_quoteExact[of s] quoteExact_inj[of s t]
    prepare_query_clauses[of pf b x r] prepare_total_built[of tss b pf x]
  by blast

theorem quoteExact_escapes_witness:
  "quoteExact (js ''a'' @ [BACKSLASH, DQUOTE])
     = [DQUOTE] @ js ''a'' @ [BACKSLASH, BACKSLASH, BACKSLASH, DQUOTE] @ [DQUOTE] \<and>
   dequote ([DQUOTE] @ js ''a'' @ [BACKSLASH, BACKSLASH, BACKSLASH, DQUOTE] @ [DQUOTE])
     = Some (js ''a'' @ [BACKSLASH, DQUOTE]) \<and>
   (\<exists>r. prepare ascii_platform default_builder (js ''a'' @ [BACKSLASH, DQUOTE]) = Some r \<and>
      queryString r
        = join (js '' OR '') (map defaultWrap (uniq (map quoteExact (raw_clauses default_builder r)))))"
proof -
  let ?x = "js ''a'' @ [BACKSLASH, DQUOTE]"
  note th = quoteExact_escapes[of ?x ?x ascii_platform default_builder ?x _ "[]"]
  have q: "quoteExact ?x = [DQUOTE] @ js ''a'' @ [BACKSLASH, BACKSLASH, BACKSLASH, DQUOTE] @ [DQUOTE]"
    by code_simp
  have t: "trim ?x \<noteq> []" by code_simp
  have w: "wrap_fn default_builder = defaultWrap" by (simp add: default_builder_def)
  from th built_default obtain r where r: "prepare ascii_platform default_builder ?x = Some r"
    by blast
  have "queryString r
        = join (js '' OR '') (map defaultWrap (uniq (map quoteExact (raw_clauses default_builder r))))"
    using quoteExact_escapes[of ?x ?x ascii_platform default_builder ?x r "[]"] r t w by simp
  moreover have "dequote (quoteExact ?x) = Some ?x" using th by blast
  ultimately show ?thesis using q r by (simp del: append.simps)
qed

text \<open>
  C3, as stated, fails: for unbalanced input the source puts a space in the place of each
  quote character instead of deleting it, so the input \<open>ab"cd\<close> leaves the remainder
  \<open>ab cd\<close> and the tokens \<open>ab\<close>, \<open>cd\<close>, where deletion would leave \<open>abcd\<close>.
\<close>

theorem strip_by_deletion_counterexample:
  "\<not> quotesBalanced (js ''ab'' @ [DQUOTE] @ js ''cd'') \<and>
   snd (analyse_quotes (js ''ab'' @ [DQUOTE] @ js ''cd'')) = js ''ab cd'' \<and>
   strip_by_deletion (js ''ab'' @ [DQUOTE] @ js ''cd'') = js ''abcd'' \<and>
   map_option cleanedTokens (prepare ascii_platform default_builder (js ''ab'' @ [DQUOTE] @ js ''cd''))
     = Some [js ''ab'', js ''cd'']"
  by code_simp

text \<open>
  C3, amended. For input whose quotes are unbalanced \<^verbatim>\<open>prepare\<close> extracts no protected
  phrase, reports \<open>hadUnbalancedQuotes\<close> true and tokenizes the remainder
  \<open>stripStrayQuotes\<close>: every quote character replaced by a space, each run of whitespace
  then collapsed to one space, the result trimmed. That remainder holds no quote
  character, no whitespace but single spaces, none of them at its ends, and the other
  code units of the input in their order. \<^verbatim>\<open>prepare\<close> returns when the automaton was built by
  the class.
\<close>

theorem prepare_unbalanced:
  assumes "\<not> quotesBalanced s"
  shows "(prepare pf b s = Some r \<longrightarrow>
            protectedPhrases r = [] \<and> hadUnbalancedQuotes r \<and>
            cleanedTokens r = clean_tokens b (stripStrayQuotes s)) \<and>
         stripStrayQuotes s = trim (collapse_ws (quotes_to_space s)) \<and>
         (\<forall>c\<in>set (stripStrayQuotes s). \<not> isQuoteChar c \<and> (isWhiteSpace c \<longrightarrow> c = SPACE)) \<and>
         successively (\<lambda>x y. \<not> (isWhiteSpace x \<and> isWhiteSpace y)) (stripStrayQuotes s) \<and>
         trim (stripStrayQuotes s) = stripStrayQuotes s \<and>
         filter (\<lambda>c. \<not> isWhiteSpace c) (stripStrayQuotes s)
           = filter (\<lambda>c. \<not> isWhiteSpace c \<and> \<not> isQuoteChar c) s \<and>
         (built_from tss (ac b) \<longrightarrow> (\<exists>r. prepare pf b s = Some r))"
proof -
  have ne: "trim s \<noteq> []" using assms blank_balanced by blast
  have 1: "protectedPhrases r = [] \<and> hadUnbalancedQuotes r \<and>
           cleanedTokens r = clean_tokens b (stripStrayQuotes s)" if p: "prepare pf b s = Some r"
    using prepare_nonempty[OF p ne] assms by (auto simp: analyse_quotes_unbalanced)
  have 2: "stripStrayQuotes s = trim (collapse_ws (quotes_to_space s))"
    by (simp add: stripStrayQuotes_def)
  show ?thesis
    using 1 2 stripStrayQuotes_props[of s] prepare_total_built[of tss b pf s]
    by blast
qed

theorem prepare_unbalanced_witness:
  "\<not> quotesBalanced (js ''ab'' @ [DQUOTE] @ js ''cd'') \<and>
   (\<exists>r. prepare ascii_platform default_builder (js ''ab'' @ [DQUOTE] @ js ''cd'') = Some r \<and>
      protectedPhrases r = [] \<and> hadUnbalancedQuotes r \<and>
      cleanedTokens r = clean_tokens default_builder (js ''ab cd''))"
proof -
  let ?x = "js ''ab'' @ [DQUOTE] @ js ''cd''"
  have u: "\<not> quotesBalanced ?x" by code_simp
  have v: "stripStrayQuotes ?x = js ''ab cd''" by code_simp
  from prepare_unbalanced[OF u, of ascii_platform default_builder _ "[]"] built_default
  obtain r where r: "prepare ascii_platform default_builder ?x = Some r" by blast
  have "protectedPhrases r = [] \<and> hadUnbalancedQuotes r \<and>
      cleanedTokens r = clean_tokens default_builder (stripStrayQuotes ?x)"
    using prepare_unbalanced[OF u, of ascii_platform default_builder r "[]"] r by blast
  then show ?thesis using u r v by simp
qed

text \<open>
  C2, as stated, fails: ties are broken by \<^verbatim>\<open>localeCompare\<close>, which is not the
  lexicographic order of the code units. With the phrases \<open>a'b\<close> and \<open>a-b\<close> both found,
  \<^verbatim>\<open>findAll\<close> returns \<open>a-b\<close> before \<open>a'b\<close>, and the apostrophe is the smaller code unit.
\<close>

theorem lexicographic_ties_counterexample:
  "findAll ascii_platform joiner_automaton [js ''a'' @ [0x27] @ js ''b'', js ''a-b'']
     = Some [js ''a-b'', js ''a'' @ [0x27] @ js ''b''] \<and>
   length (js ''a-b'') = length (js ''a'' @ [0x27] @ js ''b'') \<and>
   \<not> lex_le unat (js ''a-b'') (js ''a'' @ [0x27] @ js ''b'') \<and>
   \<not> sorted_wrt (longer_then_lex_by unat) [js ''a-b'', js ''a'' @ [0x27] @ js ''b'']"
  by code_simp

text \<open>
  C2, amended. Whatever the automaton, a list returned by \<^verbatim>\<open>findAll\<close> has no duplicate,
  and when the locale comparison is consistent it is sorted: a longer string comes before
  a shorter one, and of two strings of the same length the first is not after the second
  in the order of \<^verbatim>\<open>localeCompare\<close>. Where \<^verbatim>\<open>localeCompare\<close> compares the returned strings
  lexicographically for a ranking of the characters, ties are in ascending lexicographic
  order of the ranks. For an automaton built by the class \<^verbatim>\<open>findAll\<close> returns.
\<close>

theorem findAll_distinct_sorted:
  assumes "consistent_compare (localeCompare pf)"
  shows "(findAll pf a toks = Some r \<longrightarrow>
            distinct r \<and> sorted_wrt (longer_then_lex pf) r \<and>
            ((\<forall>x\<in>set r. \<forall>y\<in>set r. localeCompare pf x y \<le> 0 \<longleftrightarrow> lex_le k x y) \<longrightarrow>
               sorted_wrt (longer_then_lex_by k) r)) \<and>
         (built_from tss a \<longrightarrow> (\<exists>r. findAll pf a toks = Some r))"
proof -
  have 1: "distinct r \<and> sorted_wrt (longer_then_lex pf) r" if "findAll pf a toks = Some r"
    using that assms findAll_distinct[of pf a toks r] findAll_sorted[of pf a toks r] by blast
  have 2: "sorted_wrt (longer_then_lex_by k) r"
    if f: "findAll pf a toks = Some r"
      and l: "\<forall>x\<in>set r. \<forall>y\<in>set r. localeCompare pf x y \<le> 0 \<longleftrightarrow> lex_le k x y"
  proof -
    have s: "sorted_wrt (longer_then_lex pf) r" using 1[OF f] by blast
    have "longer_then_lex_by k x y"
      if "x \<in> set r" "y \<in> set r" "longer_then_lex pf x y" for x y
      using that l unfolding longer_then_lex_def longer_then_lex_by_def by blast
    then show ?thesis using sorted_wrt_mono_rel[of r "longer_then_lex pf" "longer_then_lex_by k"] s
      by blast
  qed
  show ?thesis using 1 2 findAll_total_built[of tss a pf toks] by blast
qed

theorem findAll_distinct_sorted_witness:
  "consistent_compare (localeCompare ascii_platform) \<and>
   built_from [[js ''rbac''], [js ''abac''], [js ''rbac'']] rbac_automaton \<and>
   findAll ascii_platform rbac_automaton [js ''rbac'', js ''and'', js ''abac'', js ''rbac'']
     = Some [js ''abac'', js ''rbac''] \<and>
   distinct [js ''abac'', js ''rbac''] \<and>
   sorted_wrt (longer_then_lex ascii_platform) [js ''abac'', js ''rbac''] \<and>
   sorted_wrt (longer_then_lex_by collation_rank) [js ''abac'', js ''rbac'']"
proof -
  have b: "built_from [[js ''rbac''], [js ''abac''], [js ''rbac'']] rbac_automaton"
    unfolding rbac_automaton_def by (rule built_made_from)
  have f: "findAll ascii_platform rbac_automaton [js ''rbac'', js ''and'', js ''abac'', js ''rbac'']
     = Some [js ''abac'', js ''rbac'']"
    by code_simp
  have l: "\<forall>x\<in>set [js ''abac'', js ''rbac'']. \<forall>y\<in>set [js ''abac'', js ''rbac''].
      localeCompare ascii_platform x y \<le> 0 \<longleftrightarrow> lex_le collation_rank x y"
    unfolding ascii_platform_compare rank_compare_le by blast
  show ?thesis
    using findAll_distinct_sorted[OF ascii_platform_consistent,
        of rbac_automaton "[js ''rbac'', js ''and'', js ''abac'', js ''rbac'']"
           "[js ''abac'', js ''rbac'']" collation_rank "[[js ''rbac''], [js ''abac''], [js ''rbac'']]"]
      ascii_platform_consistent b f l
    by blast
qed

text \<open>
  C1. The map \<^verbatim>\<open>best\<close> that \<^verbatim>\<open>findAll\<close> fills holds, for each start index among the match
  candidates met, exactly one candidate, one whose end index is the largest met for that
  start; the result is made of the phrases it holds. For an automaton built by the class
  \<^verbatim>\<open>findAll\<close> returns. With the phrases \<open>pre clear\<close> and \<open>pre clear trade\<close> registered, the
  tokens \<open>pre\<close>, \<open>clear\<close>, \<open>trade\<close> meet both phrases at start 0 and the result is
  \<open>pre clear trade\<close> alone.
\<close>

theorem findAll_longest_per_start:
  "(scan_loop a toks 0 0 [] = Some b \<longrightarrow>
      (\<exists>cs. scan_candidates a toks 0 0 = Some cs \<and> largest_per_start cs b)) \<and>
   (findAll pf a toks = Some r \<longrightarrow> length (nxt a) \<noteq> 1 \<longrightarrow>
      (\<exists>b. scan_loop a toks 0 0 [] = Some b \<and>
           r = sort_cmp (match_order pf) (uniq (map (\<lambda>(k, v). snd v) b)))) \<and>
   (built_from tss a \<longrightarrow> (\<exists>r. findAll pf a toks = Some r)) \<and>
   built_from [[js ''pre'', js ''clear''], [js ''pre'', js ''clear'', js ''trade'']]
     pre_clear_automaton \<and>
   scan_candidates pre_clear_automaton [js ''pre'', js ''clear'', js ''trade''] 0 0
     = Some [(0, 1, js ''pre clear''), (0, 2, js ''pre clear trade'')] \<and>
   findAll pf pre_clear_automaton [js ''pre'', js ''clear'', js ''trade'']
     = Some [js ''pre clear trade'']"
proof -
  have 1: "\<exists>cs. scan_candidates a toks 0 0 = Some cs \<and> largest_per_start cs b"
    if "scan_loop a toks 0 0 [] = Some b"
    using that by (rule scan_loop_largest)
  have 2: "\<exists>b. scan_loop a toks 0 0 [] = Some b \<and>
           r = sort_cmp (match_order pf) (uniq (map (\<lambda>(k, v). snd v) b))"
    if "findAll pf a toks = Some r" "length (nxt a) \<noteq> 1"
    using findAll_result[OF that(1)] that(2) by blast
  have 3: "\<exists>r. findAll pf a toks = Some r" if "built_from tss a"
    using that by (rule findAll_total_built)
  have 4: "built_from [[js ''pre'', js ''clear''], [js ''pre'', js ''clear'', js ''trade'']]
     pre_clear_automaton"
    unfolding pre_clear_automaton_def by (rule built_made_from)
  show ?thesis using 1 2 3 4 pre_clear_scan(2) pre_clear_findAll by blast
qed

theorem findAll_longest_per_start_witness:
  "\<exists>b cs. scan_loop pre_clear_automaton
            [js ''pre'', js ''clear'', js ''pre'', js ''clear'', js ''trade''] 0 0 [] = Some b \<and>
     scan_candidates pre_clear_automaton
            [js ''pre'', js ''clear'', js ''pre'', js ''clear'', js ''trade''] 0 0 = Some cs \<and>
     largest_per_start cs b \<and>
     findAll ascii_platform pre_clear_automaton
            [js ''pre'', js ''clear'', js ''pre'', js ''clear'', js ''trade'']
       = Some (sort_cmp (match_order ascii_platform) (uniq (map (\<lambda>(k, v). snd v) b))) \<and>
     findAll ascii_platform pre_clear_automaton
            [js ''pre'', js ''clear'', js ''pre'', js ''clear'', js ''trade'']
       = Some [js ''pre clear trade'', js ''pre clear'']"
proof -
  let ?T = "[js ''pre'', js ''clear'', js ''pre'', js ''clear'', js ''trade'']"
  have f: "findAll ascii_platform pre_clear_automaton ?T = Some [js ''pre clear trade'', js ''pre clear'']"
    by code_simp
  have n: "length (nxt pre_clear_automaton) \<noteq> 1" by code_simp
  note th = findAll_longest_per_start[of pre_clear_automaton ?T _ ascii_platform
      "[js ''pre clear trade'', js ''pre clear'']" "[]"]
  from th f n obtain b where b: "scan_loop pre_clear_automaton ?T 0 0 [] = Some b"
    "[js ''pre clear trade'', js ''pre clear'']
       = sort_cmp (match_order ascii_platform) (uniq (map (\<lambda>(k, v). snd v) b))"
    by blast
  from findAll_longest_per_start[of pre_clear_automaton ?T b ascii_platform
      "[js ''pre clear trade'', js ''pre clear'']" "[]"] b(1)
  obtain cs where "scan_candidates pre_clear_automaton ?T 0 0 = Some cs" "largest_per_start cs b"
    by blast
  then show ?thesis using b f by (intro exI[of _ b] exI[of _ cs]) simp
qed

text \<open>
  C6, as stated, fails on pretokenized input: the token sequences \<open>[a b]\<close> (one token with
  a space in it) and \<open>[a, b]\<close> have the same canonical string \<open>a b\<close> and end at different
  states, so both are stored.
\<close>

theorem phrase_count_counterexample:
  "map_option phrases (foldM addTokens [[js ''a b''], [js ''a'', js ''b'']] new_TokenAC)
     = Some [js ''a b'', js ''a b''] \<and>
   join [SPACE] [js ''a b''] = join [SPACE] [js ''a'', js ''b'']"
  by code_simp

text \<open>
  C6, amended. Inserting token sequences into a new automaton always succeeds. The phrase
  store then holds, in the order of first insertion, the canonical string and the token
  count of each distinct non-empty token sequence inserted, so the phrase count is the
  number of those sequences; inserting one of them again changes nothing. When no
  inserted token contains a space, the stored strings are distinct and the phrase count is
  the number of distinct canonical strings inserted.
\<close>

theorem phrase_store_dedup:
  "\<exists>a. foldM addTokens tss new_TokenAC = Some a \<and>
     phrases a = map (join [SPACE]) (uniq (filter (\<lambda>ts. ts \<noteq> []) tss)) \<and>
     pLens a = map length (uniq (filter (\<lambda>ts. ts \<noteq> []) tss)) \<and>
     length (phrases a) = card (set tss - {[]}) \<and>
     (\<forall>ts\<in>set tss. addTokens ts a = Some a) \<and>
     ((\<forall>ts\<in>set tss. \<forall>t\<in>set ts. SPACE \<notin> set t) \<longrightarrow>
        distinct (phrases a) \<and>
        length (phrases a) = card (join [SPACE] ` (set tss - {[]})))"
proof -
  let ?ins = "uniq (filter (\<lambda>ts. ts \<noteq> []) tss)"
  from phrase_store[of tss] obtain a where
    h: "foldM addTokens tss new_TokenAC = Some a" "phrases a = map (join [SPACE]) ?ins"
       "pLens a = map length ?ins" "\<forall>ts\<in>set tss. addTokens ts a = Some a"
    by blast
  have si: "set ?ins = set tss - {[]}" by (simp add: set_uniq nonempty_sequences del: set_filter)
  have c: "length (phrases a) = card (set tss - {[]})"
    using h(2) uniq_card[of "filter (\<lambda>ts. ts \<noteq> []) tss"] by (simp add: nonempty_sequences del: set_filter)
  have d: "distinct (phrases a) \<and> length (phrases a) = card (join [SPACE] ` (set tss - {[]}))"
    if sf: "\<forall>ts\<in>set tss. \<forall>t\<in>set ts. SPACE \<notin> set t"
  proof -
    have "\<forall>ts\<in>set tss - {[]}. ts \<noteq> [] \<and> (\<forall>t\<in>set ts. SPACE \<notin> set t)" using sf by blast
    then have inj: "inj_on (join [SPACE]) (set tss - {[]})" by (rule join_inj_on)
    have "distinct (phrases a)"
      unfolding h(2) using inj si distinct_uniq by (simp add: distinct_map)
    moreover have "card (join [SPACE] ` (set tss - {[]})) = card (set tss - {[]})"
      using inj by (rule card_image)
    ultimately show ?thesis using c by simp
  qed
  show ?thesis using h c d by blast
qed

theorem phrase_store_dedup_witness:
  "map_option phrases (foldM addTokens [[js ''rbac''], [js ''abac''], [js ''rbac'']] new_TokenAC)
     = Some [js ''rbac'', js ''abac''] \<and>
   card (set [[js ''rbac''], [js ''abac''], [js ''rbac'']] - {[]}) = 2"
proof -
  let ?tss = "[[js ''rbac''], [js ''abac''], [js ''rbac'']]"
  have u: "map (join [SPACE]) (uniq (filter (\<lambda>ts. ts \<noteq> []) ?tss)) = [js ''rbac'', js ''abac'']"
    by code_simp
  from phrase_store_dedup[of ?tss] obtain a where
    a: "foldM addTokens ?tss new_TokenAC = Some a"
       "phrases a = map (join [SPACE]) (uniq (filter (\<lambda>ts. ts \<noteq> []) ?tss))"
       "length (phrases a) = card (set ?tss - {[]})"
    by blast
  have "phrases a = [js ''rbac'', js ''abac'']" using a(2) u by simp
  then show ?thesis using a(1,3) by simp
qed

text \<open>
  C4, as stated, fails when the pattern is read with a single join: the default tokenizer
  returns \<open>a-b-c\<close> as one token, and that token has two joins.
\<close>

theorem tokenize_single_join_counterexample:
  "defaultTokenize ascii_platform (js ''a-b-c'') = [js ''a-b-c''] \<and> \<not> single_join (js ''a-b-c'')"
  by code_simp

text \<open>
  C4, amended. A token is a chain of one or more runs of the characters \<open>a-z\<close>, \<open>A-Z\<close>,
  \<open>0-9\<close>, each two neighbouring runs joined by a single hyphen or apostrophe. For every
  input, the default tokenizer normalizes first and returns, from left to right, exactly
  the spans of the normalized text that are tokens and lie in no other span that is one;
  the spans do not overlap. Every returned token matches the pattern, is not empty and
  contains no whitespace.
\<close>

theorem defaultTokenize_maximal:
  "defaultTokenize pf s
     = map (\<lambda>(i, j). slice (defaultNormalize pf s) i j) (exec_spans 0 (defaultNormalize pf s)) \<and>
   sorted_wrt (\<lambda>a b. snd a \<le> fst b) (exec_spans 0 (defaultNormalize pf s)) \<and>
   set (exec_spans 0 (defaultNormalize pf s)) = {(i, j). maximal_match (defaultNormalize pf s) i j} \<and>
   (\<forall>w\<in>set (defaultTokenize pf s). is_token w \<and> w \<noteq> [] \<and> (\<forall>c\<in>set w. \<not> isWhiteSpace c))"
proof -
  let ?n = "defaultNormalize pf s"
  have a: "defaultTokenize pf s = map (\<lambda>(i, j). slice ?n i j) (exec_spans 0 ?n)"
    using exec_loop_spans[of 0 ?n] by (simp add: defaultTokenize_def)
  have b: "sorted_wrt (\<lambda>a b. snd a \<le> fst b) (exec_spans 0 ?n)"
    using exec_spans_order[of 0 ?n] by blast
  have c: "set (exec_spans 0 ?n) = {(i, j). maximal_match ?n i j}"
    using exec_spans_maximal[of 0 ?n] by simp
  have d: "is_token w \<and> w \<noteq> [] \<and> (\<forall>c\<in>set w. \<not> isWhiteSpace c)"
    if w: "w \<in> set (defaultTokenize pf s)" for w
  proof -
    have t: "is_token w" using w exec_loop_tokens[of w ?n] by (simp add: defaultTokenize_def)
    then show ?thesis
      using is_token_head[OF t] is_token_chars[OF t] alnum_not_white joiner_not_white by blast
  qed
  show ?thesis using a b c d by blast
qed

theorem defaultTokenize_maximal_witness:
  "defaultTokenize ascii_platform (js ''State-of-the-art, pre--clear'')
     = [js ''state-of-the-art'', js ''pre'', js ''clear''] \<and>
   {(i, j). maximal_match (js ''state-of-the-art, pre--clear'') i j} = {(0, 16), (18, 21), (23, 28)} \<and>
   is_token (js ''state-of-the-art'') \<and> list_all (\<lambda>c. \<not> isWhiteSpace c) (js ''state-of-the-art'')"
proof -
  let ?s = "js ''State-of-the-art, pre--clear''"
  have n: "defaultNormalize ascii_platform ?s = js ''state-of-the-art, pre--clear''" by code_simp
  have sp: "exec_spans 0 (js ''state-of-the-art, pre--clear'') = [(0, 16), (18, 21), (23, 28)]"
    by code_simp
  have sl: "map (\<lambda>(i, j). slice (js ''state-of-the-art, pre--clear'') i j) [(0, 16), (18, 21), (23, 28)]
      = [js ''state-of-the-art'', js ''pre'', js ''clear'']"
    by code_simp
  note th = defaultTokenize_maximal[of ascii_platform ?s, unfolded n sp sl]
  have t: "defaultTokenize ascii_platform ?s = [js ''state-of-the-art'', js ''pre'', js ''clear'']"
    using th by blast
  have m: "{(i, j). maximal_match (js ''state-of-the-art, pre--clear'') i j} = {(0, 16), (18, 21), (23, 28)}"
    using th by simp
  have "\<forall>w\<in>set (defaultTokenize ascii_platform ?s). is_token w \<and> w \<noteq> [] \<and> (\<forall>c\<in>set w. \<not> isWhiteSpace c)"
    using th by blast
  then have "is_token (js ''state-of-the-art'') \<and> list_all (\<lambda>c. \<not> isWhiteSpace c) (js ''state-of-the-art'')"
    unfolding t list_all_iff by simp
  then show ?thesis using t m by blast
qed

text \<open>
  C10, as stated, fails when the neighbours of the span are not alphanumeric: in
  \<open>a."x".b\<close> the two dots stand next to the quote marks and become adjacent in the
  remainder \<open>a..b\<close>, but they belong to no token, and the tokens are \<open>a\<close> and \<open>b\<close>.
\<close>

theorem fused_token_counterexample:
  "quotesBalanced (js ''a.'' @ [DQUOTE] @ js ''x'' @ [DQUOTE] @ js ''.b'') \<and>
   spans_from (js ''a.'' @ [DQUOTE] @ js ''x'' @ [DQUOTE] @ js ''.b'') 0 = [(2, 4)] \<and>
   \<not> isWhiteSpace ((js ''a.'' @ [DQUOTE] @ js ''x'' @ [DQUOTE] @ js ''.b'') ! 1) \<and>
   \<not> isWhiteSpace ((js ''a.'' @ [DQUOTE] @ js ''x'' @ [DQUOTE] @ js ''.b'') ! 5) \<and>
   snd (analyse_quotes (js ''a.'' @ [DQUOTE] @ js ''x'' @ [DQUOTE] @ js ''.b'')) = js ''a..b'' \<and>
   map_option cleanedTokens
     (prepare ascii_platform default_builder (js ''a.'' @ [DQUOTE] @ js ''x'' @ [DQUOTE] @ js ''.b''))
     = Some [js ''a'', js ''b'']"
  by code_simp

text \<open>
  C10, amended. When the scan skips a quoted span and the characters immediately before
  the opening mark and immediately after the closing mark are alphanumeric, those two
  positions are consecutive among the positions kept, and the two characters are adjacent
  in the remainder, nothing put between them. For balanced input this remainder is what
  \<^verbatim>\<open>prepare\<close> tokenizes. When normalization maps the remainder character by character
  and keeps alphanumeric characters alphanumeric, the default tokenizer returns a token
  that holds both characters side by side.
\<close>

theorem remainder_joins_neighbours:
  assumes "(a, b) \<in> set (spans_from input 0)" "0 < a" "Suc b < length input"
    and "isAlnum (input ! (a - 1))" "isAlnum (input ! Suc b)"
  shows "(\<exists>ks ks'. kept_from input 0 = ks @ [a - 1, Suc b] @ ks' \<and>
            snd (extractQuotedPhrasesBalanced input)
              = dropWhile isWhiteSpace (map ((!) input) ks) @ [input ! (a - 1), input ! Suc b] @
                rev (dropWhile isWhiteSpace (rev (map ((!) input) ks')))) \<and>
         (quotesBalanced input \<longrightarrow>
            snd (analyse_quotes input) = snd (extractQuotedPhrasesBalanced input) \<and>
            (prepare pf bd input = Some q \<longrightarrow>
               cleanedTokens q = clean_tokens bd (snd (extractQuotedPhrasesBalanced input)))) \<and>
         (defaultNormalize pf (snd (extractQuotedPhrasesBalanced input))
            = map f (snd (extractQuotedPhrasesBalanced input)) \<and>
          (\<forall>c. isAlnum c \<longrightarrow> isAlnum (f c)) \<longrightarrow>
            (\<exists>w\<in>set (defaultTokenize pf (snd (extractQuotedPhrasesBalanced input))).
               \<exists>x y. w = x @ [f (input ! (a - 1)), f (input ! Suc b)] @ y))"
proof -
  let ?rem = "snd (extractQuotedPhrasesBalanced input)"
  let ?c = "input ! (a - 1)"
  let ?d = "input ! Suc b"
  have nq: "?c \<noteq> DQUOTE" "?c \<noteq> RDQUO" "?d \<noteq> DQUOTE" "?d \<noteq> LDQUO"
    using alnum_not_quote assms(4,5) by blast+
  from kept_adjacent[OF assms(1,2) nq(1,2) assms(3) nq(3,4)]
  obtain ks ks' where ks: "kept_from input 0 = ks @ [a - 1, Suc b] @ ks'" by blast
  have nw: "\<not> isWhiteSpace ?c" "\<not> isWhiteSpace ?d" using alnum_not_white assms(4,5) by blast+
  have rem: "?rem = dropWhile isWhiteSpace (map ((!) input) ks) @ [?c, ?d] @
                rev (dropWhile isWhiteSpace (rev (map ((!) input) ks')))"
    unfolding remainder_kept ks
    using trim_around[OF nw, of "map ((!) input) ks" "map ((!) input) ks'"] by simp
  have 1: "\<exists>ks ks'. kept_from input 0 = ks @ [a - 1, Suc b] @ ks' \<and>
            ?rem = dropWhile isWhiteSpace (map ((!) input) ks) @ [?c, ?d] @
                rev (dropWhile isWhiteSpace (rev (map ((!) input) ks')))"
    using ks rem by blast
  have aq: "snd (analyse_quotes input) = ?rem" if "quotesBalanced input"
    using that by (cases "extractQuotedPhrasesBalanced input") (simp add: analyse_quotes_def)
  have "a < b" using span_start[OF assms(1)] span_at_bounds[of input a b] by simp
  then have "a - 1 < length input" using assms(2,3) by simp
  then have "?c \<in> set input" by simp
  then have ne: "trim input \<noteq> []" using nw(1) trim_empty_iff[of input] by blast
  have 2: "cleanedTokens q = clean_tokens bd ?rem"
    if "quotesBalanced input" "prepare pf bd input = Some q"
  proof -
    from prepare_nonempty[OF that(2) ne]
    have "cleanedTokens q = clean_tokens bd (snd (analyse_quotes input))" by auto
    then show ?thesis using aq[OF that(1)] by simp
  qed
  have 3: "\<exists>w\<in>set (defaultTokenize pf ?rem). \<exists>x y. w = x @ [f ?c, f ?d] @ y"
    if n: "defaultNormalize pf ?rem = map f ?rem" and f: "\<forall>c. isAlnum c \<longrightarrow> isAlnum (f c)"
  proof -
    define u where "u = map f (dropWhile isWhiteSpace (map ((!) input) ks))"
    define v where "v = map f (rev (dropWhile isWhiteSpace (rev (map ((!) input) ks'))))"
    have "map f ?rem = u @ [f ?c, f ?d] @ v" unfolding u_def v_def by (subst rem) simp
    then have "defaultTokenize pf ?rem = exec_loop (u @ [f ?c, f ?d] @ v)"
      using n by (simp add: defaultTokenize_def)
    moreover have "isAlnum (f ?c)" "isAlnum (f ?d)" using f assms(4,5) by blast+
    ultimately show ?thesis using fused_token[of "f ?c" "f ?d" u v] by simp
  qed
  show ?thesis using 1 aq 2 3 by blast
qed

theorem remainder_joins_neighbours_witness:
  "(\<exists>ks ks'. kept_from (js ''AB'' @ [DQUOTE] @ js ''x y'' @ [DQUOTE] @ js ''CD'') 0 = ks @ [1, 7] @ ks') \<and>
   snd (analyse_quotes (js ''AB'' @ [DQUOTE] @ js ''x y'' @ [DQUOTE] @ js ''CD'')) = js ''ABCD'' \<and>
   (\<exists>w\<in>set (defaultTokenize ascii_platform (js ''ABCD'')). \<exists>x y. w = x @ js ''bc'' @ y) \<and>
   map_option cleanedTokens
     (prepare ascii_platform default_builder (js ''AB'' @ [DQUOTE] @ js ''x y'' @ [DQUOTE] @ js ''CD''))
     = Some [js ''abcd'']"
proof -
  let ?x = "js ''AB'' @ [DQUOTE] @ js ''x y'' @ [DQUOTE] @ js ''CD''"
  have sp: "(2, 6) \<in> set (spans_from ?x 0)" by code_simp
  have h: "0 < (2::nat)" "Suc 6 < length ?x" "isAlnum (?x ! (2 - 1))" "isAlnum (?x ! Suc 6)"
    by code_simp+
  have r: "snd (extractQuotedPhrasesBalanced ?x) = js ''ABCD''" by code_simp
  have qb: "quotesBalanced ?x" by code_simp
  have n: "defaultNormalize ascii_platform (js ''ABCD'') = map ascii_lower (js ''ABCD'')" by code_simp
  have c: "[ascii_lower (?x ! (2 - 1)), ascii_lower (?x ! Suc 6)] = js ''bc''" by code_simp
  have p: "map_option cleanedTokens (prepare ascii_platform default_builder ?x) = Some [js ''abcd'']"
    by code_simp
  note th = remainder_joins_neighbours[OF sp h, of ascii_platform default_builder _ ascii_lower, unfolded r]
  from th obtain ks ks' where "kept_from ?x 0 = ks @ [2 - 1, Suc 6] @ ks'" by blast
  then have "kept_from ?x 0 = ks @ [1, 7] @ ks'" by simp
  then have 1: "\<exists>ks ks'. kept_from ?x 0 = ks @ [1, 7] @ ks'" by blast
  have 2: "snd (analyse_quotes ?x) = js ''ABCD''" using th qb by blast
  have "\<exists>w\<in>set (defaultTokenize ascii_platform (js ''ABCD'')).
          \<exists>x y. w = x @ [ascii_lower (?x ! (2 - 1)), ascii_lower (?x ! Suc 6)] @ y"
    using th n ascii_lower_alnum by blast
  then have 3: "\<exists>w\<in>set (defaultTokenize ascii_platform (js ''ABCD'')). \<exists>x y. w = x @ js ''bc'' @ y"
    unfolding c .
  show ?thesis using 1 2 3 p by blast
qed

text \<open>
  C7, as stated, fails: lower-casing comes after NFKC and can leave a text that NFKC
  composes further. \<open>J\<close> followed by the combining caron has no composite, so the first
  pass gives \<open>j\<close> followed by the caron; the second pass composes these into \<open>U+01F0\<close>.
\<close>

theorem normalize_twice_counterexample:
  "defaultNormalize caron_platform [0x4A, 0x30C] = [0x6A, 0x30C] \<and>
   defaultNormalize caron_platform (defaultNormalize caron_platform [0x4A, 0x30C]) = [0x1F0]"
  by code_simp

text \<open>
  C7, amended. \<^verbatim>\<open>normalize(normalize(x)) = normalize(x)\<close> holds for every \<open>x\<close> whose
  normalized form is left unchanged by NFKC and by lower-casing; trimming is idempotent.
  In particular it holds for every string of ASCII characters.
\<close>

theorem defaultNormalize_stable:
  "(normalizeNFKC pf (defaultNormalize pf x) = defaultNormalize pf x \<and>
    toLowerCase pf (defaultNormalize pf x) = defaultNormalize pf x \<longrightarrow>
      defaultNormalize pf (defaultNormalize pf x) = defaultNormalize pf x) \<and>
   ((\<forall>c\<in>set y. c < 0x80) \<longrightarrow>
      defaultNormalize ascii_platform (defaultNormalize ascii_platform y)
        = defaultNormalize ascii_platform y)"
proof -
  have 1: "defaultNormalize pf (defaultNormalize pf x) = defaultNormalize pf x"
    if "normalizeNFKC pf (defaultNormalize pf x) = defaultNormalize pf x"
       "toLowerCase pf (defaultNormalize pf x) = defaultNormalize pf x" for pf x
  proof -
    have "defaultNormalize pf (defaultNormalize pf x) = trim (defaultNormalize pf x)"
      using that by (simp add: defaultNormalize_def[of pf "defaultNormalize pf x"])
    also have "\<dots> = defaultNormalize pf x" by (simp add: defaultNormalize_def trim_idem)
    finally show ?thesis .
  qed
  let ?n = "defaultNormalize ascii_platform y"
  have n: "?n = trim (map ascii_lower y)" by (simp add: defaultNormalize_def ascii_platform_def)
  have "\<And>c. c \<in> set ?n \<Longrightarrow> ascii_lower c = c"
    unfolding n using set_trim[of "map ascii_lower y"] ascii_lower_idem by auto
  then have l: "toLowerCase ascii_platform ?n = ?n"
    using map_fixed[of ?n ascii_lower] by (simp add: ascii_platform_def)
  have k: "normalizeNFKC ascii_platform ?n = ?n" by (simp add: ascii_platform_def)
  show ?thesis using 1 1[OF k l] by blast
qed

theorem defaultNormalize_stable_witness:
  "list_all (\<lambda>c. c < 0x80) (js '' Pre-Clear a Trade  '') \<and>
   defaultNormalize ascii_platform (js '' Pre-Clear a Trade  '') = js ''pre-clear a trade'' \<and>
   normalizeNFKC ascii_platform (js ''pre-clear a trade'') = js ''pre-clear a trade'' \<and>
   toLowerCase ascii_platform (js ''pre-clear a trade'') = js ''pre-clear a trade'' \<and>
   defaultNormalize ascii_platform (js ''pre-clear a trade'') = js ''pre-clear a trade''"
proof -
  let ?x = "js '' Pre-Clear a Trade  ''"
  have h: "list_all (\<lambda>c. c < 0x80) ?x" by code_simp
  have n: "defaultNormalize ascii_platform ?x = js ''pre-clear a trade''" by code_simp
  have k: "normalizeNFKC ascii_platform (js ''pre-clear a trade'') = js ''pre-clear a trade''"
    by code_simp
  have l: "toLowerCase ascii_platform (js ''pre-clear a trade'') = js ''pre-clear a trade''"
    by code_simp
  note th = defaultNormalize_stable[of ascii_platform ?x ?x, unfolded n]
  have a: "defaultNormalize ascii_platform (js ''pre-clear a trade'') = js ''pre-clear a trade''"
    using th k l by blast
  have "\<forall>c\<in>set ?x. c < 0x80" using h unfolding list_all_iff .
  then have "defaultNormalize ascii_platform (js ''pre-clear a trade'') = js ''pre-clear a trade''"
    using th by blast
  then show ?thesis using h n k l by blast
qed

end
